theory Spec2Isabelle
  imports Complex_Main "HOL-Library.Log_Nat" "HOL-Library.Sublist" "HOL-Library.Multiset"
begin

section \<open>Python values used by the matcher\<close>

subsection \<open>Cells of a data frame or of a query dictionary\<close>

text \<open>
  A cell is what \<^verbatim>\<open>pd.read_csv\<close> puts into a frame and what \<^verbatim>\<open>Series.to_dict\<close>
  hands on to \<^verbatim>\<open>match_single\<close>: either the missing-data marker (NaN, the value
  on which \<^verbatim>\<open>pd.isna\<close> is true) or a text. A character of the text is a code point
  below 256. A numeric cell stands for the text that \<^verbatim>\<open>str\<close> makes of it.
\<close>

datatype cell = NA | Str string

text \<open>
  \<^verbatim>\<open>candidate["PersonID"] == query_id\<close>: two texts are equal when they are the same
  text, and NaN is equal to nothing, not even to NaN. Identifiers are texts or missing;
  a column of identifiers that pandas reads as numbers is not covered.
\<close>

fun cell_eq :: "cell \<Rightarrow> cell \<Rightarrow> bool" where
  "cell_eq (Str a) (Str b) = (a = b)"
| "cell_eq _ _ = False"

subsection \<open>Floats: IEEE 754 binary64, round to nearest, ties to even\<close>

text \<open>
  A Python float is a binary64 value. The finite ones are the rationals
  \<open>m * 2 ^ (e - 52)\<close> with \<open>\<bar>m\<bar> < 2 ^ 53\<close> and \<open>-1022 \<le> e \<le> 1023\<close>; the sign of a zero
  is not kept, since no operation of the matcher can tell \<open>0.0\<close> from \<open>-0.0\<close>.
\<close>

datatype pyfloat = Fin rat | PInf | NInf | NaN

text \<open>The integer nearest to \<open>x\<close>, the even one of the two when \<open>x\<close> lies half way.\<close>

definition round_half_even :: "rat \<Rightarrow> int" where
  "round_half_even x =
     (let f = \<lfloor>x\<rfloor>; d = x - of_int f
      in if d < 1 / 2 then f
         else if 1 / 2 < d then f + 1
         else if even f then f else f + 1)"

text \<open>\<open>ilog2 x\<close> is the integer \<open>k\<close> with \<open>2 ^ k \<le> x < 2 ^ (k + 1)\<close>, for \<open>0 < x\<close>.\<close>

definition ilog2 :: "rat \<Rightarrow> int" where
  "ilog2 x =
     (let (a, b) = quotient_of x; k = bitlen a - bitlen b
      in if 2 powi k \<le> x then k else k - 1)"

text \<open>
  Rounding of an exact result to binary64. The exponent of \<open>x\<close>, not below that of
  the subnormal numbers, fixes the spacing of the floats around \<open>x\<close>; \<open>x\<close> goes to
  the nearest multiple of the spacing, and to an infinity when that is \<open>2 ^ 1024\<close> or
  beyond.
\<close>

definition f64_limit :: rat where
  "f64_limit = 2 powi 1024"

definition f64_quantum :: "rat \<Rightarrow> rat" where
  "f64_quantum x = 2 powi (max (ilog2 \<bar>x\<bar>) (- 1022) - 52)"

definition f64_nearest :: "rat \<Rightarrow> rat" where
  "f64_nearest x = of_int (round_half_even (x / f64_quantum x)) * f64_quantum x"

definition round64 :: "rat \<Rightarrow> pyfloat" where
  "round64 x =
     (if x = 0 then Fin 0
      else if f64_limit \<le> \<bar>f64_nearest x\<bar> then (if 0 < x then PInf else NInf)
      else Fin (f64_nearest x))"

fun fneg :: "pyfloat \<Rightarrow> pyfloat" where
  "fneg (Fin a) = Fin (- a)"
| "fneg PInf = NInf"
| "fneg NInf = PInf"
| "fneg NaN = NaN"

fun fadd :: "pyfloat \<Rightarrow> pyfloat \<Rightarrow> pyfloat" where
  "fadd (Fin a) (Fin b) = round64 (a + b)"
| "fadd NaN _ = NaN"
| "fadd _ NaN = NaN"
| "fadd PInf NInf = NaN"
| "fadd NInf PInf = NaN"
| "fadd PInf _ = PInf"
| "fadd NInf _ = NInf"
| "fadd _ PInf = PInf"
| "fadd _ NInf = NInf"

definition fsub :: "pyfloat \<Rightarrow> pyfloat \<Rightarrow> pyfloat" where
  "fsub a b = fadd a (fneg b)"

fun fabs :: "pyfloat \<Rightarrow> pyfloat" where
  "fabs (Fin a) = Fin \<bar>a\<bar>"
| "fabs PInf = PInf"
| "fabs NInf = PInf"
| "fabs NaN = NaN"

text \<open>\<^verbatim>\<open>a == b\<close> and \<^verbatim>\<open>a < b\<close> on floats: every comparison with NaN is false.\<close>

fun feq :: "pyfloat \<Rightarrow> pyfloat \<Rightarrow> bool" where
  "feq (Fin a) (Fin b) = (a = b)"
| "feq PInf PInf = True"
| "feq NInf NInf = True"
| "feq _ _ = False"

fun flt :: "pyfloat \<Rightarrow> pyfloat \<Rightarrow> bool" where
  "flt (Fin a) (Fin b) = (a < b)"
| "flt NaN _ = False"
| "flt _ NaN = False"
| "flt NInf NInf = False"
| "flt NInf _ = True"
| "flt _ NInf = False"
| "flt PInf _ = False"
| "flt _ PInf = True"

text \<open>
  The built-in \<^verbatim>\<open>max(a, b)\<close> keeps its first argument unless the second is greater.
\<close>

definition py_max :: "pyfloat \<Rightarrow> pyfloat \<Rightarrow> pyfloat" where
  "py_max a b = (if flt a b then b else a)"

text \<open>
  Errors of the matcher as values. \<^verbatim>\<open>int - float\<close> converts the integer first and
  raises OverflowError when it is too large for a float; float division raises
  ZeroDivisionError on a zero divisor; a missing key of a dictionary or of a row raises
  KeyError.
\<close>

datatype error = KeyError string | OverflowError | ZeroDivisionError

definition float_of_int :: "int \<Rightarrow> error + pyfloat" where
  "float_of_int i = (case round64 (of_int i) of Fin y \<Rightarrow> Inr (Fin y) | _ \<Rightarrow> Inl OverflowError)"

fun fdiv :: "pyfloat \<Rightarrow> pyfloat \<Rightarrow> error + pyfloat" where
  "fdiv a (Fin b) =
     (if b = 0 then Inl ZeroDivisionError
      else (case a of
              Fin x \<Rightarrow> Inr (round64 (x / b))
            | PInf \<Rightarrow> Inr (if 0 < b then PInf else NInf)
            | NInf \<Rightarrow> Inr (if 0 < b then NInf else PInf)
            | NaN \<Rightarrow> Inr NaN))"
| "fdiv (Fin a) PInf = Inr (Fin 0)"
| "fdiv (Fin a) NInf = Inr (Fin 0)"
| "fdiv _ _ = Inr NaN"

subsection \<open>Strings\<close>

text \<open>
  \<^verbatim>\<open>str.strip()\<close> removes the white space of both ends: the code points 9 to 13,
  28 to 32, 133 and 160 are the white space below 256.
\<close>

definition is_space :: "char \<Rightarrow> bool" where
  "is_space c = (let n = (of_char c :: nat)
                 in (9 \<le> n \<and> n \<le> 13) \<or> (28 \<le> n \<and> n \<le> 32) \<or> n = 133 \<or> n = 160)"

definition strip :: "string \<Rightarrow> string" where
  "strip s = rev (dropWhile is_space (rev (dropWhile is_space s)))"

text \<open>\<^verbatim>\<open>text.split(",")\<close>: the pieces between the commas, empty pieces kept.\<close>

fun split_comma :: "string \<Rightarrow> string list" where
  "split_comma [] = [[]]"
| "split_comma (c # cs) =
     (if c = CHR '','' then [] # split_comma cs
      else (case split_comma cs of [] \<Rightarrow> [[c]] | w # ws \<Rightarrow> (c # w) # ws))"

definition is_digit :: "char \<Rightarrow> bool" where
  "is_digit c = (48 \<le> (of_char c :: nat) \<and> (of_char c :: nat) \<le> 57)"

definition digits_val :: "string \<Rightarrow> nat" where
  "digits_val ds = foldl (\<lambda>n c. 10 * n + (of_char c - 48)) 0 ds"

definition to_lower :: "char \<Rightarrow> char" where
  "to_lower c = (let n = (of_char c :: nat) in if 65 \<le> n \<and> n \<le> 90 then char_of (n + 32) else c)"

subsection \<open>The constructor \<^verbatim>\<open>float(str)\<close>\<close>

text \<open>
  An underscore is accepted between two digits only and is dropped; the first
  argument is the character before the rest of the text.
\<close>

fun drop_underscores :: "char \<Rightarrow> string \<Rightarrow> string option" where
  "drop_underscores prev [] = (if prev = CHR ''_'' then None else Some [])"
| "drop_underscores prev (c # cs) =
     (if c = CHR ''_''
      then (if is_digit prev then drop_underscores c cs else None)
      else if prev = CHR ''_'' \<and> \<not> is_digit c then None
      else map_option ((#) c) (drop_underscores c cs))"

definition take_sign :: "string \<Rightarrow> bool \<times> string" where
  "take_sign s =
     (case s of
        [] \<Rightarrow> (False, [])
      | c # r \<Rightarrow> if c = CHR ''-'' then (True, r) else if c = CHR ''+'' then (False, r) else (False, s))"

text \<open>
  The exponent part: \<open>e\<close> or \<open>E\<close>, a sign if any, and at least one digit; without a
  digit nothing of it is read.
\<close>

definition parse_exponent :: "string \<Rightarrow> int \<times> string" where
  "parse_exponent s =
     (case s of
        [] \<Rightarrow> (0, [])
      | c # r \<Rightarrow>
          if c = CHR ''e'' \<or> c = CHR ''E''
          then (let (eneg, r') = take_sign r; ed = takeWhile is_digit r'
                in if ed = [] then (0, s)
                   else ((if eneg then - int (digits_val ed) else int (digits_val ed)),
                         dropWhile is_digit r'))
          else (0, s))"

text \<open>
  The decimal reader: a sign if any, digits, a point with digits if any, at least one
  digit in all, the exponent part if any. It returns the exact value read and the text
  left over, and \<open>None\<close> when no digit was found.
\<close>

definition strtod :: "string \<Rightarrow> (rat \<times> string) option" where
  "strtod s =
     (let (neg, r) = take_sign s;
          ip = takeWhile is_digit r;
          r1 = dropWhile is_digit r;
          (fp, r2) = (case r1 of
                        [] \<Rightarrow> ([], [])
                      | c # r' \<Rightarrow> if c = CHR ''.''
                                 then (takeWhile is_digit r', dropWhile is_digit r')
                                 else ([], r1))
      in if ip = [] \<and> fp = [] then None
         else (let (ex, r3) = parse_exponent r2;
                   m = of_nat (digits_val (ip @ fp)) * 10 powi (ex - int (length fp))
               in Some (if neg then - m else m, r3)))"

text \<open>\<open>inf\<close>, \<open>infinity\<close> and \<open>nan\<close>, in either case of the letters, with a sign if any.\<close>

definition parse_inf_or_nan :: "string \<Rightarrow> pyfloat option" where
  "parse_inf_or_nan s =
     (let (neg, r) = take_sign s; l = map to_lower r
      in if l = ''inf'' \<or> l = ''infinity'' then Some (if neg then NInf else PInf)
         else if l = ''nan'' then Some NaN
         else None)"

text \<open>
  \<^verbatim>\<open>float(s)\<close> for a text without white space at its ends; \<open>None\<close> is ValueError.
  The decimal value is rounded once, to the nearest float.
\<close>

definition py_float :: "string \<Rightarrow> pyfloat option" where
  "py_float s =
     (case drop_underscores (CHR 0x00) s of
        None \<Rightarrow> None
      | Some u \<Rightarrow>
          (case strtod u of
             Some (x, rest) \<Rightarrow> if rest = [] then Some (round64 x) else None
           | None \<Rightarrow> parse_inf_or_nan u))"

section \<open>The allele parser\<close>

text \<open>
  \<^verbatim>\<open>_parse_alleles\<close>: the loop over the pieces skips an empty piece and a piece that
  \<^verbatim>\<open>float\<close> rejects, and appends the value of every other piece.
\<close>

definition parse_token :: "string \<Rightarrow> pyfloat option" where
  "parse_token tok = (let allele = strip tok in if allele = [] then None else py_float allele)"

fun parse_alleles :: "cell \<Rightarrow> pyfloat list option" where
  "parse_alleles NA = None"
| "parse_alleles (Str v) =
     (let text = strip v
      in if text = [] \<or> text = ''-'' then None
         else (let alleles = List.map_filter parse_token (split_comma text)
               in if alleles = [] then None else Some alleles))"

section \<open>The locus evaluator\<close>

text \<open>
  \<^verbatim>\<open>set(query_alleles).intersection(candidate_alleles)\<close> keeps the candidate's values
  that are members of the query's set. Membership is by \<^verbatim>\<open>==\<close>; the two lists come
  from separate calls of the parser, so no float object is in both and a NaN is a
  member of nothing.
\<close>

definition shared :: "pyfloat list \<Rightarrow> pyfloat list \<Rightarrow> pyfloat list" where
  "shared query_alleles candidate_alleles =
     filter (\<lambda>b. list_ex (\<lambda>a. feq a b) query_alleles) candidate_alleles"

definition mutated_pair :: "pyfloat list \<Rightarrow> pyfloat list \<Rightarrow> bool" where
  "mutated_pair query_alleles candidate_alleles =
     list_ex (\<lambda>a. list_ex (\<lambda>b. feq (fabs (fsub a b)) (Fin 1)) candidate_alleles) query_alleles"

text \<open>
  The result is (consistent, mutated, inconclusive, mismatch score); the mismatch score
  is the float that \<^verbatim>\<open>mismatch_penalty += penalty\<close> adds.
\<close>

fun evaluate_locus :: "pyfloat list option \<Rightarrow> pyfloat list option \<Rightarrow> int \<times> int \<times> int \<times> pyfloat" where
  "evaluate_locus None _ = (0, 0, 1, Fin 0)"
| "evaluate_locus _ None = (0, 0, 1, Fin 0)"
| "evaluate_locus (Some query_alleles) (Some candidate_alleles) =
     (if shared query_alleles candidate_alleles \<noteq> [] then (1, 0, 0, Fin 0)
      else if mutated_pair query_alleles candidate_alleles then (0, 1, 0, Fin (1 / 2))
      else (0, 0, 0, Fin 1))"

section \<open>Frames, rows and results\<close>

text \<open>
  A row of a frame (a pandas Series) and a query dictionary map a column name to a cell.
  A frame has its column names in order and its rows in order. In a frame that
  \<^verbatim>\<open>pd.read_csv\<close> has read, no column name stands twice and every row has a cell
  for every column (\<open>frame_ok\<close>). With a column name that stands twice,
  \<^verbatim>\<open>candidate[locus]\<close> is a Series and not a cell, and \<^verbatim>\<open>_parse_alleles\<close> raises
  ValueError on it: such frames are not covered by a row that maps a name to one cell.
  A lookup of a key that is not there raises KeyError.
\<close>

type_synonym row = "string \<rightharpoonup> cell"

record frame =
  columns :: "string list"
  rows :: "row list"

definition frame_ok :: "frame \<Rightarrow> bool" where
  "frame_ok df =
     (distinct (columns df) \<and> list_all (\<lambda>r. list_all (\<lambda>c. r c \<noteq> None) (columns df)) (rows df))"

record match_result =
  person_id :: cell
  clr :: pyfloat
  posterior :: pyfloat
  consistent_loci :: int
  mutated_loci :: int
  inconclusive_loci :: int

section \<open>The profile scorer\<close>

text \<open>
  The dictionary of the query's alleles has a key for every key of the query but
  \<^verbatim>\<open>PersonID\<close>; its values are lists or \<^verbatim>\<open>None\<close>. \<^verbatim>\<open>dict.get\<close> gives \<^verbatim>\<open>None\<close>
  for a key that is not there.
\<close>

definition query_alleles_by_locus :: "row \<Rightarrow> (string \<rightharpoonup> pyfloat list option)" where
  "query_alleles_by_locus query_profile =
     (\<lambda>locus. if locus \<noteq> ''PersonID'' then map_option parse_alleles (query_profile locus) else None)"

definition dict_get :: "(string \<rightharpoonup> pyfloat list option) \<Rightarrow> string \<Rightarrow> pyfloat list option" where
  "dict_get d k = (case d k of None \<Rightarrow> None | Some v \<Rightarrow> v)"

definition loci_of :: "frame \<Rightarrow> string list" where
  "loci_of database_df = filter (\<lambda>col. col \<noteq> ''PersonID'') (columns database_df)"

text \<open>The loop over the loci, with its four accumulators.\<close>

fun score_loci ::
  "(string \<rightharpoonup> pyfloat list option) \<Rightarrow> row \<Rightarrow> string list \<Rightarrow> int \<times> int \<times> int \<times> pyfloat
     \<Rightarrow> error + (int \<times> int \<times> int \<times> pyfloat)" where
  "score_loci qa candidate [] acc = Inr acc"
| "score_loci qa candidate (locus # rest) (consistent, mutated, inconclusive, mismatch_penalty) =
     (case candidate locus of
        None \<Rightarrow> Inl (KeyError locus)
      | Some v \<Rightarrow>
          (case evaluate_locus (dict_get qa locus) (parse_alleles v) of
             (c, m, inc, penalty) \<Rightarrow>
               score_loci qa candidate rest
                 (consistent + c, mutated + m, inconclusive + inc, fadd mismatch_penalty penalty)))"

text \<open>The literal \<^verbatim>\<open>1e-6\<close> is the float nearest to one millionth.\<close>

definition epsilon :: pyfloat where
  "epsilon = round64 (1 / 1000000)"

text \<open>\<^verbatim>\<open>max(consistent * 2 + mutated - mismatch_penalty, 0.0)\<close>\<close>

definition clamped_sum :: "int \<Rightarrow> int \<Rightarrow> pyfloat \<Rightarrow> error + pyfloat" where
  "clamped_sum consistent mutated mismatch_penalty =
     (case float_of_int (consistent * 2 + mutated) of
        Inl e \<Rightarrow> Inl e
      | Inr t \<Rightarrow> Inr (py_max (fsub t mismatch_penalty) (Fin 0)))"

text \<open>The body of the loop over the candidates, after the self comparison is skipped.\<close>

definition score_candidate ::
  "(string \<rightharpoonup> pyfloat list option) \<Rightarrow> string list \<Rightarrow> row \<Rightarrow> cell \<Rightarrow> error + match_result" where
  "score_candidate qa loci candidate cid =
     (case score_loci qa candidate loci (0, 0, 0, Fin 0) of
        Inl e \<Rightarrow> Inl e
      | Inr (consistent, mutated, inconclusive, mismatch_penalty) \<Rightarrow>
          (case clamped_sum consistent mutated mismatch_penalty of
             Inl e \<Rightarrow> Inl e
           | Inr b \<Rightarrow>
               (let score = fadd b epsilon
                in case fdiv score (fadd score (Fin 1)) of
                     Inl e \<Rightarrow> Inl e
                   | Inr post \<Rightarrow>
                       Inr \<lparr>person_id = cid, clr = score, posterior = post,
                            consistent_loci = consistent, mutated_loci = mutated,
                            inconclusive_loci = inconclusive\<rparr>)))"

section \<open>The match ranker\<close>

text \<open>The loop over the rows of the database; \<open>candidates\<close> is the list built so far.\<close>

fun scan ::
  "(string \<rightharpoonup> pyfloat list option) \<Rightarrow> string list \<Rightarrow> cell \<Rightarrow> row list \<Rightarrow> match_result list
     \<Rightarrow> error + match_result list" where
  "scan qa loci query_id [] candidates = Inr candidates"
| "scan qa loci query_id (candidate # rest) candidates =
     (case candidate ''PersonID'' of
        None \<Rightarrow> Inl (KeyError ''PersonID'')
      | Some cid \<Rightarrow>
          if cell_eq cid query_id then scan qa loci query_id rest candidates
          else (case score_candidate qa loci candidate cid of
                  Inl e \<Rightarrow> Inl e
                | Inr r \<Rightarrow> scan qa loci query_id rest (candidates @ [r])))"

text \<open>
  \<^verbatim>\<open>candidates.sort(key=lambda x: x["clr"], reverse=True)\<close>: the list is reversed,
  sorted upwards by a stable sort that compares the keys with \<^verbatim>\<open><\<close>, and reversed
  again. The stable sort is written as insertion from the left; on keys without NaN
  every stable sort gives the same list.
\<close>

fun insort_clr :: "match_result \<Rightarrow> match_result list \<Rightarrow> match_result list" where
  "insort_clr x [] = [x]"
| "insort_clr x (y # ys) = (if flt (clr x) (clr y) then x # y # ys else y # insort_clr x ys)"

definition sort_clr :: "match_result list \<Rightarrow> match_result list" where
  "sort_clr xs = foldl (\<lambda>sorted x. insort_clr x sorted) [] xs"

definition sort_clr_reverse :: "match_result list \<Rightarrow> match_result list" where
  "sort_clr_reverse xs = rev (sort_clr (rev xs))"

definition match_single :: "row \<Rightarrow> frame \<Rightarrow> error + match_result list" where
  "match_single query_profile database_df =
     (case query_profile ''PersonID'' of
        None \<Rightarrow> Inl (KeyError ''PersonID'')
      | Some query_id \<Rightarrow>
          (case scan (query_alleles_by_locus query_profile) (loci_of database_df) query_id
                  (rows database_df) [] of
             Inl e \<Rightarrow> Inl e
           | Inr candidates \<Rightarrow> Inr (take 10 (sort_clr_reverse candidates))))"

section \<open>The batch driver\<close>

text \<open>
  \<^verbatim>\<open>find_matches\<close> on the two frames that it has loaded: one call of \<^verbatim>\<open>match_single\<close>
  for every row of the queries, no exception caught.
\<close>

fun run_queries ::
  "frame \<Rightarrow> row list \<Rightarrow> (cell \<times> match_result list) list \<Rightarrow> error + (cell \<times> match_result list) list" where
  "run_queries database_df [] results = Inr results"
| "run_queries database_df (query_row # rest) results =
     (case query_row ''PersonID'' of
        None \<Rightarrow> Inl (KeyError ''PersonID'')
      | Some query_id \<Rightarrow>
          (case match_single query_row database_df of
             Inl e \<Rightarrow> Inl e
           | Inr top_candidates \<Rightarrow>
               run_queries database_df rest (results @ [(query_id, take 10 top_candidates)])))"

definition find_matches :: "frame \<Rightarrow> frame \<Rightarrow> error + (cell \<times> match_result list) list" where
  "find_matches database_df queries_df = run_queries database_df (rows queries_df) []"

section \<open>Notions used to state the properties\<close>

subsection \<open>Floats\<close>

text \<open>The finite floats: an integer of at most 53 bits times a power of two.\<close>

definition is_f64 :: "rat \<Rightarrow> bool" where
  "is_f64 x \<longleftrightarrow>
     (\<exists>m k. x = of_int m * 2 powi k \<and> \<bar>m\<bar> < 2 ^ 53 \<and> - 1074 \<le> k) \<and> \<bar>x\<bar> < f64_limit"

text \<open>The value of the literal \<^verbatim>\<open>1e-6\<close>, a little below one millionth.\<close>

definition eps_val :: rat where
  "eps_val = 4722366482869645 / 2 ^ 72"

text \<open>\<^verbatim>\<open>a <= b\<close> on floats that are not NaN.\<close>

definition fle :: "pyfloat \<Rightarrow> pyfloat \<Rightarrow> bool" where
  "fle a b \<longleftrightarrow> flt a b \<or> a = b"

subsection \<open>The words of the specification, for comparison with the code\<close>

datatype verdict = Consistent | Mutated | Inconclusive | Mismatch

text \<open>
  The evaluator as the specification words it: absent on either side first, then a
  common value, then a pair of values one apart, then mismatch; a verdict and a penalty.
\<close>

definition spec_locus_verdict :: "pyfloat list option \<Rightarrow> pyfloat list option \<Rightarrow> verdict \<times> pyfloat" where
  "spec_locus_verdict query candidate =
     (case (query, candidate) of
        (Some qs, Some cs) \<Rightarrow>
          if \<exists>a\<in>set qs. \<exists>b\<in>set cs. feq a b then (Consistent, Fin 0)
          else if \<exists>a\<in>set qs. \<exists>b\<in>set cs. feq (fabs (fsub a b)) (Fin 1) then (Mutated, Fin (1 / 2))
          else (Mismatch, Fin 1)
      | _ \<Rightarrow> (Inconclusive, Fin 0))"

text \<open>How the code's tuple (consistent, mutated, inconclusive, mismatch score) carries a verdict.\<close>

fun verdict_tuple :: "verdict \<times> pyfloat \<Rightarrow> int \<times> int \<times> int \<times> pyfloat" where
  "verdict_tuple (Consistent, p) = (1, 0, 0, p)"
| "verdict_tuple (Mutated, p) = (0, 1, 0, p)"
| "verdict_tuple (Inconclusive, p) = (0, 0, 1, p)"
| "verdict_tuple (Mismatch, p) = (0, 0, 0, p)"

text \<open>
  The tokens of a field as the specification words them: split on commas, trimmed;
  a token survives when it is not empty and \<^verbatim>\<open>float\<close> accepts it.
\<close>

definition tokens :: "string \<Rightarrow> string list" where
  "tokens s = map strip (split_comma (strip s))"

definition surviving :: "string \<Rightarrow> string list" where
  "surviving s = filter (\<lambda>t. t \<noteq> [] \<and> py_float t \<noteq> None) (tokens s)"

subsection \<open>The loci of one comparison\<close>

text \<open>
  What the body of the loop over the loci gets from the evaluator at one locus, for a
  row that has a cell there, and the verdict that the tuple carries.
\<close>

definition locus_outcome :: "(string \<rightharpoonup> pyfloat list option) \<Rightarrow> row \<Rightarrow> string \<Rightarrow> int \<times> int \<times> int \<times> pyfloat" where
  "locus_outcome qa candidate locus =
     evaluate_locus (dict_get qa locus) (Option.bind (candidate locus) parse_alleles)"

definition tuple_verdict :: "int \<times> int \<times> int \<times> pyfloat \<Rightarrow> verdict" where
  "tuple_verdict t =
     (case t of (c, m, i, p) \<Rightarrow>
        if c = 1 then Consistent else if m = 1 then Mutated
        else if i = 1 then Inconclusive else Mismatch)"

definition locus_verdict :: "(string \<rightharpoonup> pyfloat list option) \<Rightarrow> row \<Rightarrow> string \<Rightarrow> verdict" where
  "locus_verdict qa candidate locus = tuple_verdict (locus_outcome qa candidate locus)"

definition count_verdict :: "verdict \<Rightarrow> (string \<rightharpoonup> pyfloat list option) \<Rightarrow> row \<Rightarrow> string list \<Rightarrow> nat" where
  "count_verdict v qa candidate loci = length (filter (\<lambda>l. locus_verdict qa candidate l = v) loci)"

text \<open>The mismatch scores of the loci, in the order in which the loop adds them.\<close>

definition penalties :: "(string \<rightharpoonup> pyfloat list option) \<Rightarrow> row \<Rightarrow> string list \<Rightarrow> pyfloat list" where
  "penalties qa candidate loci = map (\<lambda>l. snd (snd (snd (locus_outcome qa candidate l)))) loci"

text \<open>The total penalty as a number: a half for a Mutated locus, one for a Mismatch.\<close>

definition total_penalty :: "(string \<rightharpoonup> pyfloat list option) \<Rightarrow> row \<Rightarrow> string list \<Rightarrow> rat" where
  "total_penalty qa candidate loci =
     of_nat (count_verdict Mutated qa candidate loci) / 2 + of_nat (count_verdict Mismatch qa candidate loci)"

text \<open>
  The sum that the score clamps at zero, as a number:
  twice the Consistent loci plus the Mutated loci minus the total penalty.
\<close>

definition raw_sum :: "(string \<rightharpoonup> pyfloat list option) \<Rightarrow> row \<Rightarrow> string list \<Rightarrow> rat" where
  "raw_sum qa candidate loci =
     2 * of_nat (count_verdict Consistent qa candidate loci)
       + of_nat (count_verdict Mutated qa candidate loci) - total_penalty qa candidate loci"

text \<open>The clamped sum of one comparison, before \<^verbatim>\<open>1e-6\<close> is added.\<close>

definition candidate_base :: "(string \<rightharpoonup> pyfloat list option) \<Rightarrow> string list \<Rightarrow> row \<Rightarrow> error + pyfloat" where
  "candidate_base qa loci candidate =
     (case score_loci qa candidate loci (0, 0, 0, Fin 0) of
        Inl e \<Rightarrow> Inl e
      | Inr (consistent, mutated, inconclusive, mismatch_penalty) \<Rightarrow>
          clamped_sum consistent mutated mismatch_penalty)"

subsection \<open>Rows and result lists\<close>

text \<open>The rows that the scan does not skip.\<close>

definition non_self :: "cell \<Rightarrow> row list \<Rightarrow> row list" where
  "non_self query_id rs =
     filter (\<lambda>r. case r ''PersonID'' of None \<Rightarrow> False | Some cid \<Rightarrow> \<not> cell_eq cid query_id) rs"

definition has_id :: "row \<Rightarrow> bool" where
  "has_id r = (r ''PersonID'' \<noteq> None)"

definition no_nan :: "match_result list \<Rightarrow> bool" where
  "no_nan xs = list_all (\<lambda>x. clr x \<noteq> NaN) xs"

definition ascending :: "match_result list \<Rightarrow> bool" where
  "ascending xs = sorted_wrt (\<lambda>a b. fle (clr a) (clr b)) xs"

definition descending :: "match_result list \<Rightarrow> bool" where
  "descending xs = sorted_wrt (\<lambda>a b. fle (clr b) (clr a)) xs"

subsection \<open>Examples\<close>

text \<open>
  The query and the two candidates of the end-to-end example of the specification, with
  the query's own row in the database as well, and what \<^verbatim>\<open>match_single\<close> returns
  for the two candidates.
\<close>

definition ex_query :: row where
  "ex_query = [''PersonID'' \<mapsto> Str ''Q1'', ''L1'' \<mapsto> Str ''9,10'', ''L2'' \<mapsto> Str ''-'']"

definition ex_row_a :: row where
  "ex_row_a = [''PersonID'' \<mapsto> Str ''A'', ''L1'' \<mapsto> Str ''10,11'', ''L2'' \<mapsto> Str ''5'']"

definition ex_row_b :: row where
  "ex_row_b = [''PersonID'' \<mapsto> Str ''B'', ''L1'' \<mapsto> Str ''20'', ''L2'' \<mapsto> Str ''-'']"

definition ex_db :: frame where
  "ex_db = \<lparr>columns = [''PersonID'', ''L1'', ''L2''], rows = [ex_query, ex_row_a, ex_row_b]\<rparr>"

definition ex_result_a :: match_result where
  "ex_result_a =
     \<lparr>person_id = Str ''A'', clr = Fin (2251800939585155 / 2 ^ 50),
      posterior = Fin (6004800503960245 / 2 ^ 53),
      consistent_loci = 1, mutated_loci = 0, inconclusive_loci = 1\<rparr>"

definition ex_result_b :: match_result where
  "ex_result_b =
     \<lparr>person_id = Str ''B'', clr = Fin (4722366482869645 / 2 ^ 72),
      posterior = Fin (4722361760507885 / 2 ^ 72),
      consistent_loci = 0, mutated_loci = 0, inconclusive_loci = 1\<rparr>"

text \<open>A query without the locus \<open>L2\<close>, and a query and a database without identifiers.\<close>

definition ex_query_short :: row where
  "ex_query_short = [''PersonID'' \<mapsto> Str ''Q1'', ''L1'' \<mapsto> Str ''9,10'']"

definition ex_query_no_id :: row where
  "ex_query_no_id = [''L1'' \<mapsto> Str ''9,10'', ''L2'' \<mapsto> Str ''-'']"

definition ex_db_no_id :: frame where
  "ex_db_no_id = \<lparr>columns = [''L1'', ''L2''],
                  rows = [[''L1'' \<mapsto> Str ''10,11'', ''L2'' \<mapsto> Str ''5''],
                          [''L1'' \<mapsto> Str ''20'', ''L2'' \<mapsto> Str ''-'']]\<rparr>"

text \<open>
  A comparison with three Mismatch loci and a fourth locus that is Consistent, one
  that is Mutated and one that is Mismatch.
\<close>

definition ex_query_four :: row where
  "ex_query_four =
     [''PersonID'' \<mapsto> Str ''Q1'', ''L1'' \<mapsto> Str ''9'', ''L2'' \<mapsto> Str ''9'', ''L3'' \<mapsto> Str ''9'',
      ''L4'' \<mapsto> Str ''9'', ''L5'' \<mapsto> Str ''9'']"

definition ex_row_four :: row where
  "ex_row_four =
     [''PersonID'' \<mapsto> Str ''A'', ''L1'' \<mapsto> Str ''12'', ''L2'' \<mapsto> Str ''12'', ''L3'' \<mapsto> Str ''12'',
      ''L4'' \<mapsto> Str ''9'', ''L5'' \<mapsto> Str ''10'']"

section \<open>Facts about rounding\<close>


lemma pow2_pos: "0 < (2::rat) powi k"
  by (simp add: power_int_def)

lemma pow2_add: "(2::rat) powi (a + b) = 2 powi a * 2 powi b"
  by (simp add: power_int_add)

lemma pow2_le: "a \<le> b \<Longrightarrow> (2::rat) powi a \<le> 2 powi b"
  by (rule power_int_increasing) simp_all

lemma pow2_less: "a < b \<Longrightarrow> (2::rat) powi a < 2 powi b"
  by (rule power_int_strict_increasing) simp_all

lemma pow2_less_cancel: "(2::rat) powi a < 2 powi b \<Longrightarrow> a < b"
  using pow2_le [of b a] by (cases "a < b") auto

lemma pow2_of_int: "0 \<le> k \<Longrightarrow> (2::rat) powi k = of_int (2 ^ nat k)"
  by (simp add: power_int_def)

lemma bitlen_pow2_bounds:
  assumes "0 < a"
  shows "(2::rat) powi (bitlen a - 1) \<le> of_int a" and "of_int a < (2::rat) powi bitlen a"
proof -
  from assms have b: "1 \<le> bitlen a" by (auto simp: bitlen_alt_def)
  from bitlen_bounds [OF assms] have l: "2 ^ nat (bitlen a - 1) \<le> a" and u: "a < 2 ^ nat (bitlen a)"
    by auto
  from l have "(of_int (2 ^ nat (bitlen a - 1)) :: rat) \<le> of_int a" by (simp only: of_int_le_iff)
  with b show "(2::rat) powi (bitlen a - 1) \<le> of_int a" by (simp add: pow2_of_int)
  from u have "(of_int a :: rat) < of_int (2 ^ nat (bitlen a))" by (simp only: of_int_less_iff)
  with b show "of_int a < (2::rat) powi bitlen a" by (simp add: pow2_of_int)
qed

lemma ilog2_bounds:
  assumes "0 < x"
  shows "2 powi ilog2 x \<le> x" and "x < 2 powi (ilog2 x + 1)"
proof -
  obtain a b where q: "quotient_of x = (a, b)" by (cases "quotient_of x")
  then have bpos: "0 < b" by (rule quotient_of_denom_pos)
  from q have x: "x = of_int a / of_int b" by (rule quotient_of_div)
  with assms bpos have apos: "0 < a" by (simp add: zero_less_divide_iff)
  let ?k = "bitlen a - bitlen b"
  from bitlen_pow2_bounds [OF apos] bitlen_pow2_bounds [OF bpos]
  have la: "(2::rat) powi (bitlen a - 1) \<le> of_int a" and ua: "of_int a < (2::rat) powi bitlen a"
    and lb: "(2::rat) powi (bitlen b - 1) \<le> of_int b" and ub: "of_int b < (2::rat) powi bitlen b"
    by auto
  have bq: "(0::rat) < of_int b" using bpos by simp
  have up: "x < 2 powi (?k + 1)"
  proof -
    have "of_int a < (2::rat) powi (?k + 1) * 2 powi (bitlen b - 1)"
      using ua by (simp add: pow2_add [symmetric])
    also have "\<dots> \<le> 2 powi (?k + 1) * of_int b"
      using lb pow2_pos [of "?k + 1"] by (simp add: mult_left_mono)
    finally show ?thesis using bq by (simp add: x pos_divide_less_eq)
  qed
  have low: "2 powi (?k - 1) < x"
  proof -
    have "(2::rat) powi (?k - 1) * of_int b < 2 powi (?k - 1) * 2 powi bitlen b"
      using ub pow2_pos [of "?k - 1"] by (simp add: mult_strict_left_mono)
    also have "\<dots> = 2 powi (bitlen a - 1)" by (simp add: pow2_add [symmetric])
    also have "\<dots> \<le> of_int a" by (rule la)
    finally show ?thesis using bq by (simp add: x pos_less_divide_eq)
  qed
  have i: "ilog2 x = (if 2 powi ?k \<le> x then ?k else ?k - 1)"
    by (simp add: ilog2_def q Let_def)
  show "2 powi ilog2 x \<le> x" using low by (simp add: i)
  show "x < 2 powi (ilog2 x + 1)" using up by (auto simp: i not_le)
qed

lemma ilog2_unique:
  assumes "0 < x" "2 powi k \<le> x" "x < 2 powi (k + 1)"
  shows "ilog2 x = k"
proof -
  from ilog2_bounds [OF assms(1)] assms(3) have "(2::rat) powi ilog2 x < 2 powi (k + 1)" by simp
  then have a: "ilog2 x < k + 1" by (rule pow2_less_cancel)
  from ilog2_bounds [OF assms(1)] assms(2) have "(2::rat) powi k < 2 powi (ilog2 x + 1)" by simp
  then have "k < ilog2 x + 1" by (rule pow2_less_cancel)
  with a show ?thesis by simp
qed

lemma rhe_of_int: "round_half_even (of_int n) = n"
  by (simp add: round_half_even_def)

lemma rhe_bounds: "\<lfloor>x\<rfloor> \<le> round_half_even x" "round_half_even x \<le> \<lfloor>x\<rfloor> + 1"
  by (simp_all add: round_half_even_def Let_def)

lemma rhe_mono:
  assumes "x \<le> y"
  shows "round_half_even x \<le> round_half_even y"
proof (cases "\<lfloor>x\<rfloor> = \<lfloor>y\<rfloor>")
  case True
  with assms show ?thesis by (auto simp: round_half_even_def Let_def)
next
  case False
  with assms have "\<lfloor>x\<rfloor> + 1 \<le> \<lfloor>y\<rfloor>" using floor_mono [OF assms] by simp
  with rhe_bounds(2) [of x] rhe_bounds(1) [of y] show ?thesis by simp
qed

lemma rhe_error: "\<bar>of_int (round_half_even x) - x\<bar> \<le> 1 / 2"
proof -
  have "of_int \<lfloor>x\<rfloor> \<le> x" "x < of_int \<lfloor>x\<rfloor> + 1" by linarith+
  then show ?thesis by (auto simp: round_half_even_def Let_def abs_le_iff)
qed


lemma rhe_le_int: "x \<le> of_int n \<Longrightarrow> round_half_even x \<le> n"
  using rhe_mono [of x "of_int n"] by (simp add: rhe_of_int)

lemma rhe_ge_int: "of_int n \<le> x \<Longrightarrow> n \<le> round_half_even x"
  using rhe_mono [of "of_int n" x] by (simp add: rhe_of_int)

lemma rhe_nonneg: "0 \<le> x \<Longrightarrow> 0 \<le> round_half_even x"
  using rhe_ge_int [of 0 x] by simp

lemma f64_quantum_pos: "0 < f64_quantum x"
  by (simp add: f64_quantum_def pow2_pos)

lemma f64_multiple:
  assumes "is_f64 a" "2 powi e \<le> \<bar>a\<bar> \<or> e = - 1022"
  shows "\<exists>n. a = of_int n * 2 powi (e - 52)"
proof -
  from assms(1) obtain m k where a: "a = of_int m * 2 powi k" and m: "\<bar>m\<bar> < 2 ^ 53" and k: "- 1074 \<le> k"
    by (auto simp: is_f64_def)
  have "e - 52 \<le> k"
  proof (cases "e = - 1022")
    case True
    with k show ?thesis by simp
  next
    case False
    with assms(2) have "2 powi e \<le> \<bar>a\<bar>" by simp
    also have "\<bar>a\<bar> = of_int \<bar>m\<bar> * 2 powi k" by (simp add: a abs_mult)
    also have "\<dots> < of_int (2 ^ 53) * 2 powi k"
      using m pow2_pos [of k] by (intro mult_strict_right_mono) (simp_all only: of_int_less_iff)
    also have "\<dots> = 2 powi (53 + k)" by (simp add: pow2_add)
    finally have "e < 53 + k" by (rule pow2_less_cancel)
    then show ?thesis by simp
  qed
  then have "(2::rat) powi k = of_int (2 ^ nat (k - (e - 52))) * 2 powi (e - 52)"
    using pow2_add [of "k - (e - 52)" "e - 52"] by (simp add: pow2_of_int)
  then have "a = of_int (m * 2 ^ nat (k - (e - 52))) * 2 powi (e - 52)"
    by (simp add: a)
  then show ?thesis by blast
qed

lemma f64_multiple_quantum:
  assumes "is_f64 a" "0 < x" "x \<le> \<bar>a\<bar>"
  shows "\<exists>n. a = of_int n * f64_quantum x"
proof -
  have "2 powi (max (ilog2 x) (- 1022)) \<le> \<bar>a\<bar> \<or> max (ilog2 x) (- 1022) = - 1022"
    using ilog2_bounds(1) [OF assms(2)] assms(3) by (auto simp: max_def)
  from f64_multiple [OF assms(1) this] assms(2) show ?thesis by (simp add: f64_quantum_def)
qed

lemma f64_nearest_nonneg: "0 \<le> x \<Longrightarrow> 0 \<le> f64_nearest x"
  using f64_quantum_pos [of x] by (simp add: f64_nearest_def rhe_nonneg)

lemma f64_nearest_exact:
  assumes "is_f64 x" "x \<noteq> 0"
  shows "f64_nearest x = x"
proof -
  from assms(2) have xp: "0 < \<bar>x\<bar>" by simp
  have q: "f64_quantum \<bar>x\<bar> = f64_quantum x" by (simp add: f64_quantum_def)
  from f64_multiple_quantum [OF assms(1) xp] obtain n where n: "x = of_int n * f64_quantum x"
    by (auto simp: q)
  have "of_int n * f64_quantum x / f64_quantum x = (of_int n :: rat)"
    using f64_quantum_pos [of x] by simp
  with n have d: "x / f64_quantum x = of_int n" by simp
  show ?thesis unfolding f64_nearest_def d rhe_of_int using n by simp
qed

lemma round64_exact:
  assumes "is_f64 x"
  shows "round64 x = Fin x"
proof (cases "x = 0")
  case True
  then show ?thesis by (simp add: round64_def)
next
  case False
  from assms have "\<bar>x\<bar> < f64_limit" by (simp add: is_f64_def)
  with False show ?thesis by (simp add: round64_def f64_nearest_exact [OF assms False])
qed

lemma f64_nearest_upper:
  assumes "is_f64 b" "0 < x" "x \<le> b"
  shows "f64_nearest x \<le> b"
proof -
  from assms have "x \<le> \<bar>b\<bar>" by simp
  from f64_multiple_quantum [OF assms(1,2) this] obtain n where n: "b = of_int n * f64_quantum x"
    by auto
  have "x / f64_quantum x \<le> of_int n"
    using f64_quantum_pos [of x] assms(3) by (simp add: n pos_divide_le_eq)
  then have "round_half_even (x / f64_quantum x) \<le> n" by (rule rhe_le_int)
  then show ?thesis using f64_quantum_pos [of x] by (simp add: n f64_nearest_def)
qed

lemma round64_upper:
  assumes "is_f64 b" "0 < x" "x \<le> b"
  shows "\<exists>y. round64 x = Fin y \<and> 0 \<le> y \<and> y \<le> b"
proof -
  have u: "f64_nearest x \<le> b" by (rule f64_nearest_upper [OF assms])
  have l: "0 \<le> f64_nearest x" using assms(2) by (simp add: f64_nearest_nonneg)
  from assms(1) have "\<bar>b\<bar> < f64_limit" by (simp add: is_f64_def)
  with u l have "\<not> f64_limit \<le> \<bar>f64_nearest x\<bar>" by simp
  with assms(2) have "round64 x = Fin (f64_nearest x)" by (simp add: round64_def)
  with u l show ?thesis by blast
qed

lemma f64_nearest_lower:
  assumes "is_f64 a" "0 < a" "a \<le> x"
  shows "a \<le> f64_nearest x"
proof -
  from assms have xp: "0 < x" by simp
  let ?e = "max (ilog2 x) (- 1022)"
  have q: "f64_quantum x = 2 powi (?e - 52)" using xp by (simp add: f64_quantum_def)
  have qp: "0 < f64_quantum x" by (rule f64_quantum_pos)
  show ?thesis
  proof (cases "2 powi ?e \<le> \<bar>a\<bar> \<or> ?e = - 1022")
    case True
    from f64_multiple [OF assms(1) this] obtain n where n: "a = of_int n * f64_quantum x"
      by (auto simp: q)
    have "of_int n \<le> x / f64_quantum x" using qp assms(3) by (simp add: n pos_le_divide_eq)
    then have "n \<le> round_half_even (x / f64_quantum x)" by (rule rhe_ge_int)
    then show ?thesis using qp by (simp add: n f64_nearest_def)
  next
    case False
    then have a: "a < 2 powi ?e" and e: "?e = ilog2 x" using assms(2) by (auto simp: max_def)
    have p: "(2::rat) powi ?e = of_int (2 ^ 52) * f64_quantum x"
      using pow2_add [of 52 "?e - 52"] by (simp add: q)
    have "2 powi ?e \<le> x" using ilog2_bounds(1) [OF xp] e by simp
    with p have "of_int (2 ^ 52) \<le> x / f64_quantum x" using qp by (simp add: pos_le_divide_eq)
    then have "2 ^ 52 \<le> round_half_even (x / f64_quantum x)" by (rule rhe_ge_int)
    then have "(of_int (2 ^ 52) :: rat) \<le> of_int (round_half_even (x / f64_quantum x))"
      by (simp only: of_int_le_iff)
    then have "of_int (2 ^ 52) * f64_quantum x \<le> f64_nearest x"
      unfolding f64_nearest_def using qp by (rule mult_right_mono [OF _ less_imp_le])
    with p a show ?thesis by linarith
  qed
qed

lemma round64_lower:
  assumes "is_f64 a" "0 < a" "a \<le> x" "round64 x = Fin y"
  shows "a \<le> y"
proof -
  from assms have "x \<noteq> 0" by auto
  with assms(4) have "y = f64_nearest x" by (simp add: round64_def split: if_splits)
  with f64_nearest_lower [OF assms(1-3)] show ?thesis by simp
qed

lemma round64_between:
  assumes "is_f64 a" "is_f64 b" "0 < a" "a \<le> x" "x \<le> b"
  shows "\<exists>y. round64 x = Fin y \<and> a \<le> y \<and> y \<le> b"
proof -
  from assms have "0 < x" by simp
  from round64_upper [OF assms(2) this assms(5)] obtain y where y: "round64 x = Fin y" "y \<le> b"
    by blast
  with round64_lower [OF assms(1,3,4) y(1)] show ?thesis by blast
qed

lemma f64_nearest_error:
  assumes "0 < x" "x < 2 powi (k + 1)" "- 1022 \<le> k"
  shows "\<bar>f64_nearest x - x\<bar> \<le> 2 powi (k - 53)"
proof -
  let ?e = "max (ilog2 x) (- 1022)"
  let ?q = "f64_quantum x"
  let ?n = "round_half_even (x / ?q)"
  have q: "?q = 2 powi (?e - 52)" using assms(1) by (simp add: f64_quantum_def)
  have qp: "0 < ?q" by (rule f64_quantum_pos)
  have "(2::rat) powi ilog2 x < 2 powi (k + 1)"
    using ilog2_bounds(1) [OF assms(1)] assms(2) by simp
  then have "ilog2 x < k + 1" by (rule pow2_less_cancel)
  with assms(3) have ek: "?e \<le> k" by simp
  have "f64_nearest x - x = (of_int ?n - x / ?q) * ?q"
    using qp by (simp add: f64_nearest_def algebra_simps)
  then have "\<bar>f64_nearest x - x\<bar> = \<bar>of_int ?n - x / ?q\<bar> * ?q" using qp by (simp add: abs_mult)
  also have "\<dots> \<le> (1 / 2) * ?q" using rhe_error [of "x / ?q"] qp by (intro mult_right_mono) simp_all
  also have "\<dots> = 2 powi (?e - 53)" using pow2_add [of "-1" "?e - 52"] by (simp add: q)
  also have "\<dots> \<le> 2 powi (k - 53)" using ek by (intro pow2_le) simp
  finally show ?thesis .
qed

lemma is_f64I:
  assumes "x = of_int m * 2 powi k" "\<bar>m\<bar> < 2 ^ 53" "- 1074 \<le> k" "k \<le> 971"
  shows "is_f64 x"
proof -
  have "\<bar>x\<bar> = of_int \<bar>m\<bar> * 2 powi k" by (simp add: assms(1) abs_mult)
  also have "\<dots> < of_int (2 ^ 53) * 2 powi k"
    using assms(2) pow2_pos [of k] by (intro mult_strict_right_mono) (simp_all only: of_int_less_iff)
  also have "\<dots> = 2 powi (53 + k)" by (simp add: pow2_add)
  also have "\<dots> \<le> 2 powi 1024" using assms(4) by (intro pow2_le) simp
  finally have "\<bar>x\<bar> < f64_limit" by (simp only: f64_limit_def)
  with assms(1-3) show ?thesis unfolding is_f64_def by blast
qed

lemma is_f64_of_int: "\<bar>i\<bar> < 2 ^ 53 \<Longrightarrow> is_f64 (of_int i)"
  by (rule is_f64I [of _ i 0]) simp_all

lemma is_f64_half: "\<bar>i\<bar> < 2 ^ 53 \<Longrightarrow> is_f64 (of_int i / 2)"
  by (rule is_f64I [of _ i "- 1"]) simp_all

lemma floor_rat_numeral: "\<lfloor>numeral a / numeral b :: rat\<rfloor> = numeral a div numeral b"
  by (metis floor_divide_of_int_eq of_int_numeral)

lemma ilog2_eps: "ilog2 (1 / 1000000) = - 20"
  by (rule ilog2_unique) simp_all

lemma epsilon_eq: "epsilon = Fin eps_val"
  by (simp add: epsilon_def eps_val_def round64_def f64_nearest_def f64_quantum_def f64_limit_def
      round_half_even_def Let_def ilog2_eps floor_rat_numeral)

lemma eps_val_pos: "0 < eps_val"
  by (simp add: eps_val_def)

lemma is_f64_eps: "is_f64 eps_val"
  by (rule is_f64I [of _ 4722366482869645 "- 72"]) (simp_all add: eps_val_def)

lemma fadd_half:
  assumes "\<bar>k + j\<bar> < 2 ^ 53"
  shows "fadd (Fin (of_int k / 2)) (Fin (of_int j / 2)) = Fin (of_int (k + j) / 2)"
proof -
  have e: "of_int k / 2 + of_int j / 2 = (of_int (k + j) / 2 :: rat)" by (simp add: add_divide_distrib)
  show ?thesis unfolding fadd.simps e by (rule round64_exact [OF is_f64_half [OF assms]])
qed

lemma float_of_int_exact: "\<bar>i\<bar> < 2 ^ 53 \<Longrightarrow> float_of_int i = Inr (Fin (of_int i))"
  by (simp add: float_of_int_def round64_exact [OF is_f64_of_int])

lemma clamped_sum_exact:
  assumes "0 \<le> t" "t < 2 ^ 52" "0 \<le> j" "j < 2 ^ 52" "t = consistent * 2 + mutated"
  shows "clamped_sum consistent mutated (Fin (of_int j / 2)) = Inr (Fin (max (of_int t - of_int j / 2) 0))"
proof -
  from assms have f: "float_of_int (consistent * 2 + mutated) = Inr (Fin (of_int t))"
    by (simp add: float_of_int_exact)
  from assms have "\<bar>2 * t + - j\<bar> < 2 ^ 53" by simp
  from fadd_half [OF this] have "fsub (Fin (of_int t)) (Fin (of_int j / 2)) = Fin (of_int t - of_int j / 2)"
    by (simp add: fsub_def diff_divide_distrib)
  then show ?thesis by (simp add: clamped_sum_def f py_max_def max_def)
qed

lemma score_bounds:
  assumes "0 \<le> b" "b \<le> 2 ^ 51"
  shows "\<exists>s. fadd (Fin b) epsilon = Fin s \<and> eps_val \<le> s \<and> s \<le> 2 ^ 51 + 1"
proof -
  have u: "is_f64 (2 ^ 51 + 1)" using is_f64_of_int [of "2 ^ 51 + 1"] by simp
  have "eps_val \<le> 1" by (simp add: eps_val_def)
  with assms have "eps_val \<le> b + eps_val" "b + eps_val \<le> 2 ^ 51 + 1" by simp_all
  from round64_between [OF is_f64_eps u eps_val_pos this] show ?thesis by (simp add: epsilon_eq)
qed

lemma posterior_bounds:
  assumes "eps_val \<le> s" "s \<le> 2 ^ 51 + 1"
  shows "\<exists>p. fdiv (Fin s) (fadd (Fin s) (Fin 1)) = Inr (Fin p) \<and> 0 < p \<and> p < 1"
proof -
  have s0: "0 < s" using assms(1) eps_val_pos by simp
  have one: "is_f64 1" using is_f64_of_int [of 1] by simp
  have top: "is_f64 (2 ^ 51 + 2)" using is_f64_of_int [of "2 ^ 51 + 2"] by simp
  from s0 assms(2) have "1 \<le> s + 1" "s + 1 \<le> 2 ^ 51 + 2" by simp_all
  from round64_between [OF one top _ this] obtain d where d: "round64 (s + 1) = Fin d" "1 \<le> d" "d \<le> 2 ^ 51 + 2"
    by auto
  from s0 have sp: "0 < s + 1" by simp
  have "s + 1 < 2 powi (51 + 1)" using assms(2) by simp
  from f64_nearest_error [OF sp this] have "\<bar>f64_nearest (s + 1) - (s + 1)\<bar> \<le> 2 powi (51 - 53)" by simp
  moreover from d(1) sp have "d = f64_nearest (s + 1)" by (simp add: round64_def split: if_splits)
  ultimately have err: "\<bar>d - (s + 1)\<bar> \<le> 1 / 4" by simp
  let ?u = "(2 ^ 53 - 1) / 2 ^ 53 :: rat"
  let ?l = "1 / 2 ^ 100 :: rat"
  have fu: "is_f64 ?u" by (rule is_f64I [of _ "2 ^ 53 - 1" "- 53"]) simp_all
  have fl: "is_f64 ?l" by (rule is_f64I [of _ 1 "- 100"]) simp_all
  from d have dp: "0 < d" by simp
  from err have "s + 3 / 4 \<le> d" by linarith
  with assms(2) have "s * 2 ^ 53 \<le> (2 ^ 53 - 1) * d" by simp
  then have "s \<le> ?u * d" by (simp add: pos_le_divide_eq)
  then have up: "s / d \<le> ?u" using dp by (simp add: pos_divide_le_eq)
  have "?l * d \<le> eps_val" using d(3) by (simp add: eps_val_def)
  with assms(1) have "?l * d \<le> s" by simp
  then have low: "?l \<le> s / d" using dp by (simp add: pos_le_divide_eq)
  from round64_between [OF fl fu _ low up] obtain p where p: "round64 (s / d) = Fin p" "?l \<le> p" "p \<le> ?u"
    by auto
  from p have "0 < p" "p < 1" by simp_all
  with p(1) d dp show ?thesis by simp
qed

section \<open>Facts about the evaluator and the scorer\<close>

lemma shared_nonempty_iff:
  "shared qs cs \<noteq> [] \<longleftrightarrow> (\<exists>a\<in>set qs. \<exists>b\<in>set cs. feq a b)"
  by (auto simp: shared_def filter_empty_conv list_ex_iff)

lemma mutated_pair_iff:
  "mutated_pair qs cs \<longleftrightarrow> (\<exists>a\<in>set qs. \<exists>b\<in>set cs. feq (fabs (fsub a b)) (Fin 1))"
  by (simp add: mutated_pair_def list_ex_iff)

lemma evaluate_locus_range:
  "evaluate_locus q c = (1, 0, 0, Fin 0) \<or> evaluate_locus q c = (0, 1, 0, Fin (1 / 2))
   \<or> evaluate_locus q c = (0, 0, 1, Fin 0) \<or> evaluate_locus q c = (0, 0, 0, Fin 1)"
  by (cases q; cases c) simp_all

lemma locus_outcome_cases:
  "locus_outcome qa candidate l =
     (case locus_verdict qa candidate l of
        Consistent \<Rightarrow> (1, 0, 0, Fin 0)
      | Mutated \<Rightarrow> (0, 1, 0, Fin (1 / 2))
      | Inconclusive \<Rightarrow> (0, 0, 1, Fin 0)
      | Mismatch \<Rightarrow> (0, 0, 0, Fin 1))"
  using evaluate_locus_range [of "dict_get qa l" "Option.bind (candidate l) parse_alleles"]
  by (auto simp: locus_verdict_def locus_outcome_def tuple_verdict_def)

lemma locus_outcome_Some:
  "candidate l = Some v \<Longrightarrow> evaluate_locus (dict_get qa l) (parse_alleles v) = locus_outcome qa candidate l"
  by (simp add: locus_outcome_def)

lemma count_verdict_Nil: "count_verdict v qa candidate [] = 0"
  by (simp add: count_verdict_def)

lemma count_verdict_Cons:
  "count_verdict v qa candidate (l # ls) =
     (if locus_verdict qa candidate l = v then 1 else 0) + count_verdict v qa candidate ls"
  by (simp add: count_verdict_def)

lemma count_verdict_append:
  "count_verdict v qa candidate (ls @ ls') =
     count_verdict v qa candidate ls + count_verdict v qa candidate ls'"
  by (simp add: count_verdict_def)

lemma count_verdict_le: "count_verdict v qa candidate loci \<le> length loci"
  by (simp add: count_verdict_def)

lemma count_verdict_total:
  "count_verdict Consistent qa candidate loci + count_verdict Mutated qa candidate loci
     + count_verdict Inconclusive qa candidate loci + count_verdict Mismatch qa candidate loci
   = length loci"
proof (induction loci)
  case Nil
  show ?case by (simp add: count_verdict_Nil)
next
  case (Cons l ls)
  then show ?case by (cases "locus_verdict qa candidate l") (simp_all add: count_verdict_Cons)
qed

lemma score_loci_Inr:
  assumes "\<forall>l\<in>set loci. candidate l \<noteq> None"
  shows "score_loci qa candidate loci (c, m, i, p) =
     Inr (c + int (count_verdict Consistent qa candidate loci),
          m + int (count_verdict Mutated qa candidate loci),
          i + int (count_verdict Inconclusive qa candidate loci),
          foldl fadd p (penalties qa candidate loci))"
  using assms
proof (induction loci arbitrary: c m i p)
  case Nil
  show ?case by (simp add: penalties_def count_verdict_Nil)
next
  case (Cons l ls)
  from Cons.prems obtain v where v: "candidate l = Some v" by auto
  from Cons.prems have rest: "\<forall>l\<in>set ls. candidate l \<noteq> None" by simp
  note e = locus_outcome_Some [of candidate l v qa, OF v]
  show ?case
    using locus_outcome_cases [of qa candidate l]
    by (cases "locus_verdict qa candidate l")
      (simp_all add: v e Cons.IH [OF rest] count_verdict_Cons penalties_def)
qed

lemma score_loci_Inl:
  assumes "\<not> (\<forall>l\<in>set loci. candidate l \<noteq> None)"
  shows "\<exists>l\<in>set loci. score_loci qa candidate loci acc = Inl (KeyError l)"
  using assms
proof (induction loci arbitrary: acc)
  case Nil
  then show ?case by simp
next
  case (Cons l ls)
  obtain c m i p where acc: "acc = (c, m, i, p)" by (cases acc)
  show ?case
  proof (cases "candidate l")
    case None
    then show ?thesis by (simp add: acc)
  next
    case (Some v)
    with Cons.prems have "\<not> (\<forall>l\<in>set ls. candidate l \<noteq> None)" by simp
    from Cons.IH [OF this] show ?thesis
      by (auto simp: acc Some split: prod.splits)
  qed
qed

lemma score_loci_present:
  assumes "score_loci qa candidate loci acc = Inr r"
  shows "\<forall>l\<in>set loci. candidate l \<noteq> None"
proof (rule ccontr)
  assume "\<not> (\<forall>l\<in>set loci. candidate l \<noteq> None)"
  from score_loci_Inl [OF this, of qa acc] assms show False by auto
qed

lemma score_loci_cong:
  assumes "\<forall>l\<in>set loci. dict_get qa l = dict_get qa' l"
  shows "score_loci qa candidate loci acc = score_loci qa' candidate loci acc"
  using assms
proof (induction loci arbitrary: acc)
  case Nil
  show ?case by simp
next
  case (Cons l ls)
  obtain c m i p where acc: "acc = (c, m, i, p)" by (cases acc)
  from Cons.prems have "dict_get qa l = dict_get qa' l" "\<forall>l\<in>set ls. dict_get qa l = dict_get qa' l"
    by simp_all
  with Cons.IH show ?case by (simp add: acc split: option.splits prod.splits)
qed

lemma penalty_cases:
  "snd (snd (snd (locus_outcome qa candidate l))) =
     Fin (of_int (case locus_verdict qa candidate l of
                    Consistent \<Rightarrow> 0 | Inconclusive \<Rightarrow> 0 | Mutated \<Rightarrow> 1 | Mismatch \<Rightarrow> 2) / 2)"
  unfolding locus_outcome_cases by (cases "locus_verdict qa candidate l") simp_all

lemma penalty_sum:
  assumes "0 \<le> k" "k + 2 * int (length loci) < 2 ^ 53"
  shows "foldl fadd (Fin (of_int k / 2)) (penalties qa candidate loci) =
         Fin (of_int (k + int (count_verdict Mutated qa candidate loci)
                        + 2 * int (count_verdict Mismatch qa candidate loci)) / 2)"
  using assms
proof (induction loci arbitrary: k)
  case Nil
  show ?case by (simp add: penalties_def count_verdict_Nil)
next
  case (Cons l ls)
  let ?j = "case locus_verdict qa candidate l of
              Consistent \<Rightarrow> 0 | Inconclusive \<Rightarrow> 0 | Mutated \<Rightarrow> 1 | Mismatch \<Rightarrow> (2::int)"
  have j: "0 \<le> ?j" "?j \<le> 2" by (cases "locus_verdict qa candidate l"; simp)+
  with Cons.prems have "\<bar>k + ?j\<bar> < 2 ^ 53" by simp
  then have step:
    "fadd (Fin (of_int k / 2)) (snd (snd (snd (locus_outcome qa candidate l)))) = Fin (of_int (k + ?j) / 2)"
    by (simp only: penalty_cases fadd_half)
  from j Cons.prems have "0 \<le> k + ?j" "k + ?j + 2 * int (length ls) < 2 ^ 53" by simp_all
  from Cons.IH [OF this] show ?case
    unfolding penalties_def list.map foldl_Cons step
    by (cases "locus_verdict qa candidate l") (simp_all add: penalties_def count_verdict_Cons)
qed

lemma raw_sum_eq:
  "raw_sum qa candidate loci =
     of_int (2 * int (count_verdict Consistent qa candidate loci) + int (count_verdict Mutated qa candidate loci))
     - of_int (int (count_verdict Mutated qa candidate loci)
               + 2 * int (count_verdict Mismatch qa candidate loci)) / 2"
  by (simp add: raw_sum_def total_penalty_def add_divide_distrib)

lemma raw_sum_le: "raw_sum qa candidate loci \<le> 2 * of_nat (length loci)"
proof -
  have "count_verdict Consistent qa candidate loci + count_verdict Mutated qa candidate loci \<le> length loci"
    using count_verdict_total [of qa candidate loci] by simp
  then have "(of_nat (count_verdict Consistent qa candidate loci) :: rat)
      + of_nat (count_verdict Mutated qa candidate loci) \<le> of_nat (length loci)"
    by (metis of_nat_add of_nat_le_iff)
  moreover have "0 \<le> total_penalty qa candidate loci" by (simp add: total_penalty_def)
  ultimately show ?thesis by (simp add: raw_sum_def)
qed

text \<open>The loop over the loci and the clamped sum, in numbers, below \<open>2 ^ 50\<close> loci.\<close>

lemma score_loci_exact:
  assumes "\<forall>l\<in>set loci. candidate l \<noteq> None" "length loci < 2 ^ 50"
  shows "score_loci qa candidate loci (0, 0, 0, Fin 0) =
     Inr (int (count_verdict Consistent qa candidate loci),
          int (count_verdict Mutated qa candidate loci),
          int (count_verdict Inconclusive qa candidate loci),
          Fin (of_int (int (count_verdict Mutated qa candidate loci)
                       + 2 * int (count_verdict Mismatch qa candidate loci)) / 2))"
proof -
  from assms(2) have "0 + 2 * int (length loci) < 2 ^ 53" by simp
  from penalty_sum [OF _ this, of qa candidate]
  have "foldl fadd (Fin 0) (penalties qa candidate loci) =
      Fin (of_int (int (count_verdict Mutated qa candidate loci)
                   + 2 * int (count_verdict Mismatch qa candidate loci)) / 2)" by simp
  with score_loci_Inr [OF assms(1), of qa 0 0 0 "Fin 0"] show ?thesis by simp
qed

lemma candidate_base_exact:
  assumes "\<forall>l\<in>set loci. candidate l \<noteq> None" "length loci < 2 ^ 50"
  shows "candidate_base qa loci candidate = Inr (Fin (max (raw_sum qa candidate loci) 0))"
proof -
  let ?c = "count_verdict Consistent qa candidate loci"
  let ?m = "count_verdict Mutated qa candidate loci"
  let ?x = "count_verdict Mismatch qa candidate loci"
  have le: "?c \<le> length loci" "?m \<le> length loci" "?x \<le> length loci"
    by (rule count_verdict_le)+
  from assms(2) have n: "int (length loci) < 2 ^ 50" by (metis of_nat_less_numeral_power_cancel_iff)
  from le n have t: "0 \<le> 2 * int ?c + int ?m" "2 * int ?c + int ?m < 2 ^ 52" by simp_all
  from le n have j: "0 \<le> int ?m + 2 * int ?x" "int ?m + 2 * int ?x < 2 ^ 52" by simp_all
  have "clamped_sum (int ?c) (int ?m) (Fin (of_int (int ?m + 2 * int ?x) / 2)) =
      Inr (Fin (max (of_int (2 * int ?c + int ?m) - of_int (int ?m + 2 * int ?x) / 2) 0))"
    by (rule clamped_sum_exact [OF t j]) simp
  then show ?thesis
    by (simp only: candidate_base_def score_loci_exact [OF assms] raw_sum_eq sum.case prod.case)
qed

lemma score_candidate_base:
  "score_candidate qa loci candidate cid =
     (case score_loci qa candidate loci (0, 0, 0, Fin 0) of
        Inl e \<Rightarrow> Inl e
      | Inr (consistent, mutated, inconclusive, mismatch_penalty) \<Rightarrow>
          (case candidate_base qa loci candidate of
             Inl e \<Rightarrow> Inl e
           | Inr b \<Rightarrow>
               (case fdiv (fadd b epsilon) (fadd (fadd b epsilon) (Fin 1)) of
                  Inl e \<Rightarrow> Inl e
                | Inr post \<Rightarrow>
                    Inr \<lparr>person_id = cid, clr = fadd b epsilon, posterior = post,
                         consistent_loci = consistent, mutated_loci = mutated,
                         inconclusive_loci = inconclusive\<rparr>)))"
  by (simp add: score_candidate_def candidate_base_def Let_def split: sum.splits prod.splits)

text \<open>The scorer on a row that has every locus, below \<open>2 ^ 50\<close> loci.\<close>

lemma score_candidate_exact:
  assumes "\<forall>l\<in>set loci. candidate l \<noteq> None" "length loci < 2 ^ 50"
  shows "\<exists>s p. score_candidate qa loci candidate cid =
           Inr \<lparr>person_id = cid, clr = Fin s, posterior = Fin p,
                consistent_loci = int (count_verdict Consistent qa candidate loci),
                mutated_loci = int (count_verdict Mutated qa candidate loci),
                inconclusive_loci = int (count_verdict Inconclusive qa candidate loci)\<rparr>
         \<and> fadd (Fin (max (raw_sum qa candidate loci) 0)) epsilon = Fin s
         \<and> fdiv (Fin s) (fadd (Fin s) (Fin 1)) = Inr (Fin p)
         \<and> eps_val \<le> s \<and> 0 < p \<and> p < 1"
proof -
  let ?b = "max (raw_sum qa candidate loci) 0"
  from assms(2) have "(of_nat (length loci) :: rat) < 2 ^ 50"
    by (metis of_nat_less_numeral_power_cancel_iff)
  with raw_sum_le [of qa candidate loci] have "?b \<le> 2 ^ 51" by simp
  from score_bounds [OF _ this] obtain s where
    s: "fadd (Fin ?b) epsilon = Fin s" "eps_val \<le> s" "s \<le> 2 ^ 51 + 1" by auto
  from posterior_bounds [OF s(2,3)] obtain p where
    p: "fdiv (Fin s) (fadd (Fin s) (Fin 1)) = Inr (Fin p)" "0 < p" "p < 1" by auto
  have "score_candidate qa loci candidate cid =
           Inr \<lparr>person_id = cid, clr = Fin s, posterior = Fin p,
                consistent_loci = int (count_verdict Consistent qa candidate loci),
                mutated_loci = int (count_verdict Mutated qa candidate loci),
                inconclusive_loci = int (count_verdict Inconclusive qa candidate loci)\<rparr>"
    by (simp only: score_candidate_base score_loci_exact [OF assms] candidate_base_exact [OF assms]
        s(1) p(1) sum.case prod.case)
  with s p show ?thesis by blast
qed

lemma score_candidate_present:
  assumes "score_candidate qa loci candidate cid = Inr r"
  shows "\<forall>l\<in>set loci. candidate l \<noteq> None"
proof -
  from assms obtain acc where "score_loci qa candidate loci (0, 0, 0, Fin 0) = Inr acc"
    by (auto simp: score_candidate_def split: sum.splits)
  then show ?thesis by (rule score_loci_present)
qed

lemma score_candidate_person_id:
  "score_candidate qa loci candidate cid = Inr r \<Longrightarrow> person_id r = cid"
  by (auto simp: score_candidate_def Let_def split: sum.splits prod.splits)

lemma score_candidate_counts:
  assumes "score_candidate qa loci candidate cid = Inr r"
  shows "consistent_loci r = int (count_verdict Consistent qa candidate loci)"
    and "mutated_loci r = int (count_verdict Mutated qa candidate loci)"
    and "inconclusive_loci r = int (count_verdict Inconclusive qa candidate loci)"
proof -
  note pr = score_candidate_present [OF assms]
  from assms show "consistent_loci r = int (count_verdict Consistent qa candidate loci)"
    and "mutated_loci r = int (count_verdict Mutated qa candidate loci)"
    and "inconclusive_loci r = int (count_verdict Inconclusive qa candidate loci)"
    by (auto simp: score_candidate_def Let_def score_loci_Inr [OF pr] split: sum.splits)
qed

lemma score_candidate_cong:
  assumes "\<forall>l\<in>set loci. dict_get qa l = dict_get qa' l"
  shows "score_candidate qa loci candidate cid = score_candidate qa' loci candidate cid"
  by (simp add: score_candidate_def score_loci_cong [OF assms])

subsection \<open>No result has a NaN score\<close>

lemma round64_not_nan: "round64 x \<noteq> NaN"
  by (simp add: round64_def)

lemma fadd_not_nan_Fin: "a \<noteq> NaN \<Longrightarrow> fadd a (Fin x) \<noteq> NaN"
  by (cases a) (simp_all add: round64_not_nan)

lemma fadd_Fin_not_nan: "b \<noteq> NaN \<Longrightarrow> fadd (Fin x) b \<noteq> NaN"
  by (cases b) (simp_all add: round64_not_nan)

lemma penalties_Fin: "\<forall>x\<in>set (penalties qa candidate loci). \<exists>y. x = Fin y"
proof
  fix x
  assume "x \<in> set (penalties qa candidate loci)"
  then obtain l where "x = snd (snd (snd (locus_outcome qa candidate l)))"
    by (auto simp: penalties_def)
  then have "x = Fin (of_int (case locus_verdict qa candidate l of
                    Consistent \<Rightarrow> 0 | Inconclusive \<Rightarrow> 0 | Mutated \<Rightarrow> 1 | Mismatch \<Rightarrow> 2) / 2)"
    by (simp only: penalty_cases)
  then show "\<exists>y. x = Fin y" by blast
qed

lemma foldl_fadd_not_nan:
  assumes "p \<noteq> NaN" "\<forall>x\<in>set xs. \<exists>y. x = Fin y"
  shows "foldl fadd p xs \<noteq> NaN"
  using assms
proof (induction xs arbitrary: p)
  case Nil
  then show ?case by simp
next
  case (Cons x xs)
  from Cons.prems obtain y where "x = Fin y" by auto
  with Cons.prems have "fadd p x \<noteq> NaN" by (simp add: fadd_not_nan_Fin)
  with Cons show ?case by simp
qed

lemma float_of_int_Fin: "float_of_int i = Inr x \<Longrightarrow> \<exists>t. x = Fin t"
  by (cases "round64 (of_int i)") (auto simp: float_of_int_def)

lemma clamped_sum_range:
  assumes "clamped_sum c m p = Inr b" "p \<noteq> NaN"
  shows "b = PInf \<or> (\<exists>y. b = Fin y)"
proof -
  from assms(1) obtain tf where tf: "float_of_int (c * 2 + m) = Inr tf"
    and b': "b = py_max (fsub tf p) (Fin 0)"
    by (auto simp: clamped_sum_def split: sum.splits)
  from float_of_int_Fin [OF tf] obtain t where "tf = Fin t" by blast
  with b' have b: "b = py_max (fsub (Fin t) p) (Fin 0)" by simp
  from assms(2) have "fneg p \<noteq> NaN" by (cases p) simp_all
  then have "fsub (Fin t) p \<noteq> NaN" by (simp add: fsub_def fadd_Fin_not_nan)
  then show ?thesis by (cases "fsub (Fin t) p") (simp_all add: b py_max_def)
qed

lemma score_candidate_not_nan:
  assumes "score_candidate qa loci candidate cid = Inr r"
  shows "clr r \<noteq> NaN"
proof -
  note pr = score_candidate_present [OF assms]
  let ?p = "foldl fadd (Fin 0) (penalties qa candidate loci)"
  have p: "?p \<noteq> NaN" by (rule foldl_fadd_not_nan [OF _ penalties_Fin]) simp
  from assms obtain b where b: "candidate_base qa loci candidate = Inr b" and c: "clr r = fadd b epsilon"
    by (auto simp: score_candidate_base split: sum.splits prod.splits)
  from b have "clamped_sum (int (count_verdict Consistent qa candidate loci))
      (int (count_verdict Mutated qa candidate loci)) ?p = Inr b"
    by (simp add: candidate_base_def score_loci_Inr [OF pr])
  from clamped_sum_range [OF this p] show ?thesis
    by (auto simp: c epsilon_eq round64_not_nan)
qed

subsection \<open>One more locus\<close>

lemma raw_sum_snoc:
  "raw_sum qa candidate (loci @ [l]) =
     raw_sum qa candidate loci
       + (case locus_verdict qa candidate l of
            Consistent \<Rightarrow> 2 | Mutated \<Rightarrow> 1 / 2 | Inconclusive \<Rightarrow> 0 | Mismatch \<Rightarrow> - 1)"
  by (cases "locus_verdict qa candidate l")
    (simp_all add: raw_sum_def total_penalty_def count_verdict_append count_verdict_Cons
      count_verdict_Nil add_divide_distrib)

subsection \<open>The parser's loop as a filter\<close>

lemma map_filter_parse_token:
  "List.map_filter parse_token xs =
     map (\<lambda>t. the (py_float t)) (filter (\<lambda>t. t \<noteq> [] \<and> py_float t \<noteq> None) (map strip xs))"
  by (induction xs) (simp_all add: List.map_filter_def parse_token_def Let_def)

lemma py_float_Nil: "py_float [] = None"
  by (simp add: py_float_def strtod_def take_sign_def parse_inf_or_nan_def)

lemma parse_alleles_Str:
  "parse_alleles (Str s) =
     (if strip s = [] \<or> strip s = ''-'' \<or> surviving s = [] then None
      else Some (map (\<lambda>t. the (py_float t)) (surviving s)))"
  by (simp add: Let_def map_filter_parse_token surviving_def tokens_def)

lemma set_surviving_values:
  "set (map (\<lambda>t. the (py_float t)) (surviving s)) = {x. \<exists>t\<in>set (tokens s). py_float t = Some x}"
  by (force simp: surviving_def py_float_Nil)

section \<open>Facts about the stable sort\<close>

lemma flt_total: "a \<noteq> NaN \<Longrightarrow> b \<noteq> NaN \<Longrightarrow> flt a b \<or> a = b \<or> flt b a"
  by (cases a; cases b) auto

lemma flt_trans: "flt a b \<Longrightarrow> flt b c \<Longrightarrow> flt a c"
  by (cases a; cases b; cases c) auto

lemma flt_irrefl: "\<not> flt a a"
  by (cases a) auto

lemma flt_asym: "flt a b \<Longrightarrow> \<not> flt b a"
  by (cases a; cases b) auto

lemma fle_trans: "fle a b \<Longrightarrow> fle b c \<Longrightarrow> fle a c"
  using flt_trans by (auto simp: fle_def)

lemma not_flt_fle: "a \<noteq> NaN \<Longrightarrow> b \<noteq> NaN \<Longrightarrow> \<not> flt a b \<Longrightarrow> fle b a"
  using flt_total [of a b] by (auto simp: fle_def)

lemma set_insort_clr: "set (insort_clr x ys) = insert x (set ys)"
  by (induction ys) auto

lemma mset_insort_clr: "mset (insort_clr x ys) = add_mset x (mset ys)"
  by (induction ys) auto

lemma ascending_insort_clr:
  assumes "ascending ys" "clr x \<noteq> NaN" "no_nan ys"
  shows "ascending (insort_clr x ys)"
  using assms
proof (induction ys)
  case Nil
  show ?case by (simp add: ascending_def)
next
  case (Cons y ys)
  show ?case
  proof (cases "flt (clr x) (clr y)")
    case True
    with Cons.prems show ?thesis
      using fle_trans [of "clr x" "clr y"] by (auto simp: ascending_def fle_def)
  next
    case False
    from Cons.prems have "clr y \<noteq> NaN" by (simp add: no_nan_def list_all_iff)
    with False Cons.prems(2) have "fle (clr y) (clr x)" by (simp add: not_flt_fle)
    moreover from Cons have "ascending (insort_clr x ys)" by (simp add: ascending_def no_nan_def list_all_iff)
    ultimately show ?thesis using False Cons.prems(1)
      by (auto simp: ascending_def set_insort_clr)
  qed
qed

lemma filter_insort_clr:
  assumes "ascending ys"
  shows "filter (\<lambda>r. clr r = k) (insort_clr x ys) =
         (if clr x = k then filter (\<lambda>r. clr r = k) ys @ [x] else filter (\<lambda>r. clr r = k) ys)"
  using assms
proof (induction ys)
  case Nil
  show ?case by simp
next
  case (Cons y ys)
  from Cons.prems have asc: "ascending ys" and le: "\<forall>z\<in>set ys. fle (clr y) (clr z)"
    by (simp_all add: ascending_def)
  show ?case
  proof (cases "flt (clr x) (clr y)")
    case True
    have "filter (\<lambda>r. clr r = k) (y # ys) = []" if "clr x = k"
    proof -
      have "clr z \<noteq> k" if "z \<in> set (y # ys)" for z
      proof
        assume "clr z = k"
        with \<open>clr x = k\<close> True have "flt (clr z) (clr y)" by simp
        moreover from that le have "fle (clr y) (clr z)" by (auto simp: fle_def)
        ultimately show False using flt_asym flt_irrefl by (auto simp: fle_def)
      qed
      then show ?thesis by (simp add: filter_empty_conv)
    qed
    with True show ?thesis by auto
  next
    case False
    with Cons.IH [OF asc] show ?thesis by simp
  qed
qed

lemma sort_clr_snoc: "sort_clr (xs @ [x]) = insort_clr x (sort_clr xs)"
  by (simp add: sort_clr_def)

lemma sort_clr_Nil: "sort_clr [] = []"
  by (simp add: sort_clr_def)

lemma mset_sort_clr: "mset (sort_clr xs) = mset xs"
  by (induction xs rule: rev_induct) (simp_all add: sort_clr_Nil sort_clr_snoc mset_insort_clr)

lemma set_sort_clr: "set (sort_clr xs) = set xs"
  using mset_sort_clr [of xs] by (metis set_mset_mset)

lemma ascending_sort_clr: "no_nan xs \<Longrightarrow> ascending (sort_clr xs)"
proof (induction xs rule: rev_induct)
  case Nil
  show ?case by (simp add: sort_clr_Nil ascending_def)
next
  case (snoc x xs)
  then have "ascending (sort_clr xs)" "clr x \<noteq> NaN" "no_nan (sort_clr xs)"
    by (simp_all add: no_nan_def list_all_iff set_sort_clr)
  then show ?case by (simp add: sort_clr_snoc ascending_insort_clr)
qed

lemma filter_sort_clr:
  "no_nan xs \<Longrightarrow> filter (\<lambda>r. clr r = k) (sort_clr xs) = filter (\<lambda>r. clr r = k) xs"
proof (induction xs rule: rev_induct)
  case Nil
  show ?case by (simp add: sort_clr_Nil)
next
  case (snoc x xs)
  then have "no_nan xs" by (simp add: no_nan_def list_all_iff)
  with snoc.IH ascending_sort_clr [of xs] show ?case
    by (simp add: sort_clr_snoc filter_insort_clr)
qed

lemma mset_sort_clr_reverse: "mset (sort_clr_reverse xs) = mset xs"
  by (simp add: sort_clr_reverse_def mset_sort_clr)

lemma set_sort_clr_reverse: "set (sort_clr_reverse xs) = set xs"
  by (simp add: sort_clr_reverse_def set_sort_clr)

lemma length_sort_clr_reverse: "length (sort_clr_reverse xs) = length xs"
  using mset_sort_clr_reverse [of xs] by (metis size_mset)

lemma descending_sort_clr_reverse: "no_nan xs \<Longrightarrow> descending (sort_clr_reverse xs)"
proof -
  assume "no_nan xs"
  then have "no_nan (rev xs)" by (simp add: no_nan_def list_all_iff)
  then have "ascending (sort_clr (rev xs))" by (rule ascending_sort_clr)
  then show ?thesis
    by (simp add: descending_def ascending_def sort_clr_reverse_def sorted_wrt_rev)
qed

lemma filter_sort_clr_reverse:
  "no_nan xs \<Longrightarrow> filter (\<lambda>r. clr r = k) (sort_clr_reverse xs) = filter (\<lambda>r. clr r = k) xs"
proof -
  assume "no_nan xs"
  then have "no_nan (rev xs)" by (simp add: no_nan_def list_all_iff)
  from filter_sort_clr [OF this, of k] show ?thesis
    by (simp add: sort_clr_reverse_def rev_filter [symmetric])
qed

lemma prefix_filter_take: "prefix (filter P (take n xs)) (filter P xs)"
proof -
  have "filter P xs = filter P (take n xs) @ filter P (drop n xs)"
    by (metis append_take_drop_id filter_append)
  then show ?thesis by (simp add: prefix_def)
qed

lemma no_nan_iff: "no_nan xs \<longleftrightarrow> (\<forall>x\<in>set xs. clr x \<noteq> NaN)"
  by (simp add: no_nan_def list_all_iff)

lemma descending_take: "descending xs \<Longrightarrow> descending (take n xs)"
  by (simp add: descending_def sorted_wrt_take)

section \<open>Facts about the scan\<close>

lemma scan_Inr:
  assumes "scan qa loci qid rs acc = Inr cands"
  shows "\<exists>news. cands = acc @ news \<and> list_all has_id rs
           \<and> list_all2 (\<lambda>row r. \<exists>cid. row ''PersonID'' = Some cid
                                  \<and> score_candidate qa loci row cid = Inr r)
                (non_self qid rs) news"
  using assms
proof (induction rs arbitrary: acc)
  case Nil
  then show ?case by (simp add: non_self_def)
next
  case (Cons row rs)
  from Cons.prems obtain cid where cid: "row ''PersonID'' = Some cid"
    by (cases "row ''PersonID''") simp_all
  show ?case
  proof (cases "cell_eq cid qid")
    case True
    with Cons.prems cid have "scan qa loci qid rs acc = Inr cands" by simp
    have "has_id row" by (simp add: has_id_def cid)
    with Cons.IH [OF \<open>scan qa loci qid rs acc = Inr cands\<close>] True cid show ?thesis
      by (simp add: non_self_def)
  next
    case False
    with Cons.prems cid obtain r where r: "score_candidate qa loci row cid = Inr r"
      and rest: "scan qa loci qid rs (acc @ [r]) = Inr cands"
      by (cases "score_candidate qa loci row cid") simp_all
    from Cons.IH [OF rest] obtain news where news: "cands = (acc @ [r]) @ news" "list_all has_id rs"
      "list_all2 (\<lambda>row r. \<exists>cid. row ''PersonID'' = Some cid
                                  \<and> score_candidate qa loci row cid = Inr r)
                (non_self qid rs) news" by blast
    have "cands = acc @ (r # news)" using news(1) by simp
    moreover have "list_all2 (\<lambda>row r. \<exists>cid. row ''PersonID'' = Some cid
                                  \<and> score_candidate qa loci row cid = Inr r)
                (non_self qid (row # rs)) (r # news)"
      using news(3) False cid r by (simp add: non_self_def)
    moreover have "has_id row" by (simp add: has_id_def cid)
    with news(2) have "list_all has_id (row # rs)" by simp
    ultimately show ?thesis by blast
  qed
qed

lemma scan_total:
  assumes "list_all has_id rs"
    and "\<forall>row\<in>set rs. \<forall>cid. \<exists>r. score_candidate qa loci row cid = Inr r"
  shows "\<exists>cands. scan qa loci qid rs acc = Inr cands"
  using assms
proof (induction rs arbitrary: acc)
  case Nil
  show ?case by simp
next
  case (Cons row rs)
  from Cons.prems(1) have "has_id row" by simp
  then obtain cid where cid: "row ''PersonID'' = Some cid" by (auto simp: has_id_def)
  from Cons.prems(2) have "\<exists>r. score_candidate qa loci row cid = Inr r" by simp
  then obtain r where r: "score_candidate qa loci row cid = Inr r" by blast
  from Cons.prems have rest: "list_all has_id rs"
    "\<forall>row\<in>set rs. \<forall>cid. \<exists>r. score_candidate qa loci row cid = Inr r" by simp_all
  from Cons.IH [OF rest] show ?case by (simp add: cid r)
qed

lemma scan_missing_id:
  assumes "\<not> list_all has_id rs"
    and "\<forall>row\<in>set rs. \<forall>cid. \<exists>r. score_candidate qa loci row cid = Inr r"
  shows "scan qa loci qid rs acc = Inl (KeyError ''PersonID'')"
  using assms
proof (induction rs arbitrary: acc)
  case Nil
  then show ?case by simp
next
  case (Cons row rs)
  show ?case
  proof (cases "row ''PersonID''")
    case None
    then show ?thesis by simp
  next
    case (Some cid)
    then have "has_id row" by (simp add: has_id_def)
    with Cons.prems(1) have a: "\<not> list_all has_id rs" by simp
    from Cons.prems(2) have b: "\<forall>row\<in>set rs. \<forall>cid. \<exists>r. score_candidate qa loci row cid = Inr r"
      by simp
    from Cons.prems(2) have "\<exists>r. score_candidate qa loci row cid = Inr r" by simp
    then obtain r where r: "score_candidate qa loci row cid = Inr r" by blast
    from Cons.IH [OF a b] show ?thesis by (simp add: Some r)
  qed
qed

lemma scan_cong:
  assumes "\<forall>l\<in>set loci. dict_get qa l = dict_get qa' l"
  shows "scan qa loci qid rs acc = scan qa' loci qid rs acc"
proof (induction rs arbitrary: acc)
  case Nil
  show ?case by simp
next
  case (Cons row rs)
  then show ?case
    by (simp add: score_candidate_cong [OF assms] split: option.splits sum.splits)
qed

lemma frame_ok_loci:
  assumes "frame_ok db"
  shows "\<forall>row\<in>set (rows db). \<forall>l\<in>set (loci_of db). row l \<noteq> None"
  using assms by (auto simp: frame_ok_def loci_of_def list_all_iff)

lemma length_loci_of: "length (loci_of db) \<le> length (columns db)"
  by (simp add: loci_of_def)

lemma frame_ok_scores:
  assumes "frame_ok db" "length (columns db) < 2 ^ 50"
  shows "\<forall>row\<in>set (rows db). \<forall>cid. \<exists>r. score_candidate qa (loci_of db) row cid = Inr r"
proof (intro ballI allI)
  fix row cid
  assume "row \<in> set (rows db)"
  with frame_ok_loci [OF assms(1)] have p: "\<forall>l\<in>set (loci_of db). row l \<noteq> None" by simp
  from assms(2) length_loci_of [of db] have "length (loci_of db) < 2 ^ 50" by simp
  from score_candidate_exact [OF p this, of qa cid]
  show "\<exists>r. score_candidate qa (loci_of db) row cid = Inr r" by blast
qed

lemma match_single_Inr:
  assumes "match_single q db = Inr rs"
  shows "\<exists>qid cands. q ''PersonID'' = Some qid
           \<and> scan (query_alleles_by_locus q) (loci_of db) qid (rows db) [] = Inr cands
           \<and> rs = take 10 (sort_clr_reverse cands)"
  using assms by (auto simp: match_single_def split: option.splits sum.splits)

lemma scan_length:
  assumes "scan qa loci qid rs [] = Inr cands"
  shows "length cands = length (non_self qid rs)"
  using scan_Inr [OF assms] by (auto dest: list_all2_lengthD)

lemma scan_member:
  assumes "scan qa loci qid rs [] = Inr cands" "r \<in> set cands"
  shows "\<exists>row\<in>set rs. \<exists>cid. row ''PersonID'' = Some cid \<and> \<not> cell_eq cid qid
           \<and> score_candidate qa loci row cid = Inr r"
proof -
  from scan_Inr [OF assms(1)] have l:
    "list_all2 (\<lambda>row r. \<exists>cid. row ''PersonID'' = Some cid
                                  \<and> score_candidate qa loci row cid = Inr r)
                (non_self qid rs) cands" by simp
  from assms(2) obtain i where i: "i < length cands" "cands ! i = r" by (auto simp: in_set_conv_nth)
  with l have n: "i < length (non_self qid rs)" by (auto dest: list_all2_lengthD)
  let ?row = "non_self qid rs ! i"
  from l i n obtain cid where c: "?row ''PersonID'' = Some cid" "score_candidate qa loci ?row cid = Inr r"
    by (auto simp: list_all2_conv_all_nth)
  from n have "?row \<in> set (non_self qid rs)" by simp
  then have "?row \<in> set rs" "\<not> cell_eq cid qid" using c(1) by (auto simp: non_self_def)
  with c show ?thesis by blast
qed

lemma scan_no_nan:
  assumes "scan qa loci qid rs [] = Inr cands"
  shows "no_nan cands"
  unfolding no_nan_iff
proof
  fix r
  assume "r \<in> set cands"
  from scan_member [OF assms this] obtain row cid where "score_candidate qa loci row cid = Inr r"
    by blast
  then show "clr r \<noteq> NaN" by (rule score_candidate_not_nan)
qed

lemma scan_all_self:
  assumes "list_all has_id rs" "non_self qid rs = []"
  shows "scan qa loci qid rs acc = Inr acc"
  using assms
proof (induction rs)
  case Nil
  show ?case by simp
next
  case (Cons row rs)
  from Cons.prems(1) have "has_id row" by simp
  then obtain cid where cid: "row ''PersonID'' = Some cid" by (auto simp: has_id_def)
  with Cons.prems(2) have self: "cell_eq cid qid" and rest: "non_self qid rs = []"
    by (auto simp: non_self_def split: if_splits)
  from Cons.prems(1) have "list_all has_id rs" by simp
  from Cons.IH [OF this rest] show ?case by (simp add: cid self)
qed

subsection \<open>The errors that can come out\<close>

lemma score_candidate_Inl:
  assumes "length loci < 2 ^ 50" "score_candidate qa loci candidate cid = Inl e"
  shows "\<exists>l\<in>set loci. e = KeyError l"
proof (cases "\<forall>l\<in>set loci. candidate l \<noteq> None")
  case True
  from score_candidate_exact [OF True assms(1), of qa cid] assms(2) show ?thesis by auto
next
  case False
  from score_loci_Inl [OF False, of qa "(0, 0, 0, Fin 0)"] assms(2) show ?thesis
    by (auto simp: score_candidate_def)
qed

lemma scan_Inl:
  assumes "length loci < 2 ^ 50" "scan qa loci qid rs acc = Inl e"
  shows "\<exists>l. e = KeyError l"
  using assms(2)
proof (induction rs arbitrary: acc)
  case Nil
  then show ?case by simp
next
  case (Cons row rs)
  show ?case
  proof (cases "row ''PersonID''")
    case None
    with Cons.prems show ?thesis by auto
  next
    case (Some cid)
    show ?thesis
    proof (cases "cell_eq cid qid")
      case True
      with Cons Some show ?thesis by simp
    next
      case False
      show ?thesis
      proof (cases "score_candidate qa loci row cid")
        case (Inl e')
        with score_candidate_Inl [OF assms(1) Inl] Cons.prems Some False show ?thesis by auto
      next
        case (Inr r)
        with Cons Some False show ?thesis by simp
      qed
    qed
  qed
qed

lemma match_single_Inl:
  assumes "length (columns db) < 2 ^ 50" "match_single q db = Inl e"
  shows "\<exists>l. e = KeyError l"
proof -
  from assms(1) length_loci_of [of db] have n: "length (loci_of db) < 2 ^ 50" by simp
  show ?thesis
  proof (cases "q ''PersonID''")
    case None
    with assms(2) show ?thesis by (auto simp: match_single_def)
  next
    case (Some qid)
    with assms(2) have "scan (query_alleles_by_locus q) (loci_of db) qid (rows db) [] = Inl e"
      by (auto simp: match_single_def split: sum.splits)
    from scan_Inl [OF n this] show ?thesis .
  qed
qed

lemma match_single_cong:
  assumes "q ''PersonID'' = q' ''PersonID''"
    and "\<forall>l\<in>set (loci_of db). dict_get (query_alleles_by_locus q) l = dict_get (query_alleles_by_locus q') l"
  shows "match_single q db = match_single q' db"
  by (cases "q' ''PersonID''") (simp_all add: match_single_def assms(1) scan_cong [OF assms(2)])

lemma absent_locus_outcome:
  assumes "q l = None"
  shows "locus_outcome (query_alleles_by_locus q) candidate l = (0, 0, 1, Fin 0)"
  using assms by (simp add: locus_outcome_def dict_get_def query_alleles_by_locus_def)

lemma length_filter_mono:
  assumes "\<forall>x\<in>set xs. P x \<longrightarrow> Q x"
  shows "length (filter P xs) \<le> length (filter Q xs)"
  using assms by (induction xs) auto

lemma run_queries_abort:
  assumes "list_all (\<lambda>p. \<exists>rs. match_single p db = Inr rs) pre" "match_single q db = Inl e"
  shows "run_queries db (pre @ q # rest) acc = Inl e"
  using assms(1)
proof (induction pre arbitrary: acc)
  case Nil
  show ?case
  proof (cases "q ''PersonID''")
    case None
    with assms(2) show ?thesis by (simp add: match_single_def)
  next
    case (Some qid)
    with assms(2) show ?thesis by simp
  qed
next
  case (Cons p pre)
  from Cons.prems obtain rs where rs: "match_single p db = Inr rs" by auto
  then obtain pid where "p ''PersonID'' = Some pid"
    by (cases "p ''PersonID''") (simp_all add: match_single_def)
  moreover from Cons.prems have "list_all (\<lambda>p. \<exists>rs. match_single p db = Inr rs) pre" by simp
  ultimately show ?case using Cons.IH rs by simp
qed

lemma match_single_total:
  assumes "frame_ok db" "length (columns db) < 2 ^ 50" "q ''PersonID'' = Some qid"
    "list_all has_id (rows db)"
  shows "\<exists>rs. match_single q db = Inr rs"
proof -
  from scan_total [OF assms(4) frame_ok_scores [OF assms(1,2)], of "query_alleles_by_locus q" qid "[]"]
  obtain cands where "scan (query_alleles_by_locus q) (loci_of db) qid (rows db) [] = Inr cands"
    by blast
  then show ?thesis by (simp add: match_single_def assms(3))
qed

lemma match_single_missing_id:
  assumes "frame_ok db" "length (columns db) < 2 ^ 50"
    "q ''PersonID'' = None \<or> \<not> list_all has_id (rows db)"
  shows "match_single q db = Inl (KeyError ''PersonID'')"
proof (cases "q ''PersonID''")
  case None
  then show ?thesis by (simp add: match_single_def)
next
  case (Some qid)
  with assms(3) have "\<not> list_all has_id (rows db)" by simp
  from scan_missing_id [OF this frame_ok_scores [OF assms(1,2)], of "query_alleles_by_locus q" qid "[]"]
  show ?thesis by (simp add: match_single_def Some)
qed

section \<open>Evaluation of the examples\<close>

lemma round64_numeral: "(numeral n :: int) < 2 ^ 53 \<Longrightarrow> round64 (numeral n) = Fin (numeral n)"
  using round64_exact [OF is_f64_of_int [of "numeral n"]] by simp

lemma round64_neg_numeral: "(numeral n :: int) < 2 ^ 53 \<Longrightarrow> round64 (- numeral n) = Fin (- numeral n)"
  using round64_exact [OF is_f64_of_int [of "- numeral n"]] by simp

lemma round64_one: "round64 1 = Fin 1"
  using round64_exact [OF is_f64_of_int [of 1]] by simp

lemma round64_neg_one: "round64 (- 1) = Fin (- 1)"
  using round64_exact [OF is_f64_of_int [of "- 1"]] by simp

lemma round64_zero: "round64 0 = Fin 0"
  by (simp add: round64_def)

text \<open>A rounding with the exponent of its argument given.\<close>

lemma round64_pos_eval:
  assumes "0 < x" "2 powi e \<le> x" "x < 2 powi (e + 1)" "- 1022 \<le> e" "e \<le> 1022"
  shows "round64 x = Fin (of_int (round_half_even (x / 2 powi (e - 52))) * 2 powi (e - 52))"
proof -
  have i: "ilog2 x = e" by (rule ilog2_unique [OF assms(1-3)])
  have q: "f64_quantum x = 2 powi (e - 52)" using assms(1,4) by (simp add: f64_quantum_def i)
  have n: "f64_nearest x = of_int (round_half_even (x / 2 powi (e - 52))) * 2 powi (e - 52)"
    by (simp add: f64_nearest_def q)
  have "(2::rat) powi (e + 1) = of_int (2 ^ 52) * 2 powi (e - 51)"
    using pow2_add [of 52 "e - 51"] by (simp add: add.commute)
  then have f: "is_f64 (2 powi (e + 1))" by (rule is_f64I) (use assms in simp_all)
  from f64_nearest_upper [OF f assms(1)] assms(3) have "f64_nearest x \<le> 2 powi (e + 1)" by simp
  moreover have "(2::rat) powi (e + 1) < 2 powi 1024" using assms(5) by (intro pow2_less) simp
  moreover have "0 \<le> f64_nearest x" using assms(1) by (simp add: f64_nearest_nonneg)
  ultimately have "\<not> f64_limit \<le> \<bar>f64_nearest x\<bar>" by (simp add: f64_limit_def del: power_int_numeral)
  with assms(1) show ?thesis by (simp add: round64_def n)
qed

lemmas float_eval = round64_neg_one round64_numeral round64_neg_numeral round64_one round64_zero
  round64_pos_eval [of _ 3] round64_pos_eval [of _ 1] round64_pos_eval [of _ 0]
  round64_pos_eval [of _ "- 1"] round64_pos_eval [of _ "- 20"]
  round_half_even_def floor_rat_numeral epsilon_eq eps_val_def

lemmas parse_defs = strip_def is_space_def parse_token_def py_float_def strtod_def take_sign_def
  parse_exponent_def is_digit_def digits_val_def parse_inf_or_nan_def List.map_filter_def Let_def

lemmas score_defs = query_alleles_by_locus_def score_candidate_def clamped_sum_def float_of_int_def
  py_max_def fsub_def dict_get_def shared_def mutated_pair_def

lemmas example_defs = ex_query_def ex_row_a_def ex_row_b_def ex_db_def ex_result_a_def ex_result_b_def
  ex_query_short_def ex_query_no_id_def ex_db_no_id_def ex_query_four_def ex_row_four_def

lemma ex_score_a:
  "score_candidate (query_alleles_by_locus ex_query) [''L1'', ''L2''] ex_row_a (Str ''A'') = Inr ex_result_a"
  by (simp add: example_defs score_defs parse_defs float_eval)

lemma ex_score_b:
  "score_candidate (query_alleles_by_locus ex_query) [''L1'', ''L2''] ex_row_b (Str ''B'') = Inr ex_result_b"
  by (simp add: example_defs score_defs parse_defs float_eval)

lemma ex_score_short:
  "score_candidate (query_alleles_by_locus ex_query_short) [''L1'', ''L2''] ex_row_a (Str ''A'') = Inr ex_result_a"
  by (simp add: example_defs score_defs parse_defs float_eval)

lemma ex_loci: "loci_of ex_db = [''L1'', ''L2'']"
  by (simp add: loci_of_def ex_db_def)

lemma ex_scan:
  "scan (query_alleles_by_locus ex_query) (loci_of ex_db) (Str ''Q1'') (rows ex_db) [] =
     Inr [ex_result_a, ex_result_b]"
proof -
  have "ex_query ''PersonID'' = Some (Str ''Q1'')" "ex_row_a ''PersonID'' = Some (Str ''A'')"
    "ex_row_b ''PersonID'' = Some (Str ''B'')"
    by (simp_all add: example_defs)
  moreover have "rows ex_db = [ex_query, ex_row_a, ex_row_b]" by (simp add: ex_db_def)
  ultimately show ?thesis by (simp add: ex_loci ex_score_a ex_score_b)
qed

lemma ex_sort: "sort_clr_reverse [ex_result_a, ex_result_b] = [ex_result_a, ex_result_b]"
  by (simp add: sort_clr_reverse_def sort_clr_def ex_result_a_def ex_result_b_def)

lemma ex_match: "match_single ex_query ex_db = Inr [ex_result_a, ex_result_b]"
proof -
  have "ex_query ''PersonID'' = Some (Str ''Q1'')" by (simp add: ex_query_def)
  then show ?thesis by (simp add: match_single_def ex_scan ex_sort)
qed

lemma ex_frame_ok: "frame_ok ex_db"
  by (simp add: frame_ok_def example_defs)

lemma round64_half_numeral:
  "(numeral n :: int) < 2 ^ 53 \<Longrightarrow> round64 (numeral n / 2) = Fin (numeral n / 2)"
  using round64_exact [OF is_f64_half [of "numeral n"]] by simp

lemma round64_neg_half_numeral:
  "(numeral n :: int) < 2 ^ 53 \<Longrightarrow> round64 (- (numeral n / 2)) = Fin (- (numeral n / 2))"
  using round64_exact [OF is_f64_half [of "- numeral n"]] by simp

lemma round64_half: "round64 (1 / 2) = Fin (1 / 2)"
  using round64_exact [OF is_f64_half [of 1]] by simp

lemmas verdict_defs = locus_verdict_def locus_outcome_def tuple_verdict_def

lemma ex_four_verdicts:
  "locus_verdict (query_alleles_by_locus ex_query_four) ex_row_four ''L1'' = Mismatch"
  "locus_verdict (query_alleles_by_locus ex_query_four) ex_row_four ''L2'' = Mismatch"
  "locus_verdict (query_alleles_by_locus ex_query_four) ex_row_four ''L3'' = Mismatch"
  "locus_verdict (query_alleles_by_locus ex_query_four) ex_row_four ''L4'' = Consistent"
  "locus_verdict (query_alleles_by_locus ex_query_four) ex_row_four ''L5'' = Mutated"
  by (simp_all add: verdict_defs example_defs score_defs parse_defs float_eval)

lemma ex_a_verdicts:
  "locus_verdict (query_alleles_by_locus ex_query) ex_row_a ''L1'' = Consistent"
  "locus_verdict (query_alleles_by_locus ex_query) ex_row_a ''L2'' = Inconclusive"
  by (simp_all add: verdict_defs example_defs score_defs parse_defs float_eval)

section \<open>The claims\<close>

subsection \<open>C1: the order of checks of the locus evaluator\<close>

text \<open>
  C1. The evaluator returns, for every pair of allele lists or absent values, the tuple
  of the verdict that the order of checks of the specification gives: Inconclusive with
  penalty 0 when a side is absent, else Consistent with penalty 0 when the two sides
  have a common value, else Mutated with penalty 0.5 when some cross pair differs by
  exactly 1, else Mismatch with penalty 1. The common value is looked for first, so it
  wins over a pair that is one apart. Values are compared as floats: a NaN is common
  to nothing, and the difference is the rounded one.
\<close>

theorem evaluate_locus_follows_spec_order:
  "evaluate_locus q c = verdict_tuple (spec_locus_verdict q c)"
proof (cases q)
  case None
  then show ?thesis by (simp add: spec_locus_verdict_def)
next
  case (Some qs)
  show ?thesis
  proof (cases c)
    case None
    with Some show ?thesis by (simp add: spec_locus_verdict_def)
  next
    case (Some cs)
    with \<open>q = Some qs\<close> show ?thesis
      unfolding spec_locus_verdict_def
      by (simp add: shared_nonempty_iff mutated_pair_iff del: feq.simps fabs.simps)
  qed
qed

text \<open>
  The query \<open>{9, 10}\<close> against the candidate \<open>{10, 11}\<close> is Consistent by the common
  value 10, although 9 and 10 are one apart.
\<close>

theorem evaluate_locus_follows_spec_order_witness:
  "evaluate_locus (Some [Fin 9, Fin 10]) (Some [Fin 10, Fin 11]) = (1, 0, 0, Fin 0)
   \<and> mutated_pair [Fin 9, Fin 10] [Fin 10, Fin 11]"
proof
  have "spec_locus_verdict (Some [Fin 9, Fin 10]) (Some [Fin 10, Fin 11]) = (Consistent, Fin 0)"
    by (simp add: spec_locus_verdict_def)
  with evaluate_locus_follows_spec_order [of "Some [Fin 9, Fin 10]" "Some [Fin 10, Fin 11]"]
  show "evaluate_locus (Some [Fin 9, Fin 10]) (Some [Fin 10, Fin 11]) = (1, 0, 0, Fin 0)"
    by simp
  show "mutated_pair [Fin 9, Fin 10] [Fin 10, Fin 11]"
    by (simp add: mutated_pair_def fsub_def round64_neg_one)
qed

subsection \<open>C2: the score and the posterior\<close>

text \<open>
  C2. For every comparison of a query with a row that has a cell for each of fewer than
  \<open>2 ^ 50\<close> loci, the scorer returns a result whose counts are the numbers of Consistent,
  Mutated and Inconclusive loci, whose score is the float sum of
  \<open>max (2 * consistent_loci + mutated_loci - total_penalty) 0\<close> and \<^verbatim>\<open>1e-6\<close>, and
  whose posterior is the float quotient of the score by the float sum of the score and 1.
  Below \<open>2 ^ 50\<close> loci, which is more than a frame can hold, every sum before \<^verbatim>\<open>1e-6\<close>
  is added is exact.
\<close>

theorem score_formula:
  assumes "\<forall>l\<in>set loci. candidate l \<noteq> None" and "length loci < 2 ^ 50"
  shows "\<exists>r. score_candidate qa loci candidate cid = Inr r
           \<and> consistent_loci r = int (count_verdict Consistent qa candidate loci)
           \<and> mutated_loci r = int (count_verdict Mutated qa candidate loci)
           \<and> inconclusive_loci r = int (count_verdict Inconclusive qa candidate loci)
           \<and> clr r = fadd (Fin (max (2 * of_int (consistent_loci r) + of_int (mutated_loci r)
                                      - total_penalty qa candidate loci) 0)) epsilon
           \<and> fdiv (clr r) (fadd (clr r) (Fin 1)) = Inr (posterior r)"
proof -
  from score_candidate_exact [OF assms, of qa cid] obtain s p where
    r: "score_candidate qa loci candidate cid =
           Inr \<lparr>person_id = cid, clr = Fin s, posterior = Fin p,
                consistent_loci = int (count_verdict Consistent qa candidate loci),
                mutated_loci = int (count_verdict Mutated qa candidate loci),
                inconclusive_loci = int (count_verdict Inconclusive qa candidate loci)\<rparr>"
    and s: "fadd (Fin (max (raw_sum qa candidate loci) 0)) epsilon = Fin s"
    and p: "fdiv (Fin s) (fadd (Fin s) (Fin 1)) = Inr (Fin p)"
    by blast
  from s have "Fin s = fadd (Fin (max (2 * of_int (int (count_verdict Consistent qa candidate loci))
      + of_int (int (count_verdict Mutated qa candidate loci)) - total_penalty qa candidate loci) 0)) epsilon"
    by (simp add: raw_sum_def)
  with r p show ?thesis by simp
qed

theorem score_formula_witness:
  "list_all (\<lambda>l. ex_row_a l \<noteq> None) [''L1'', ''L2''] \<and> length [''L1'', ''L2''] < 2 ^ 50
   \<and> score_candidate (query_alleles_by_locus ex_query) [''L1'', ''L2''] ex_row_a (Str ''A'') = Inr ex_result_a
   \<and> clr ex_result_a = fadd (Fin (max (2 * of_int (consistent_loci ex_result_a)
           + of_int (mutated_loci ex_result_a)
           - total_penalty (query_alleles_by_locus ex_query) ex_row_a [''L1'', ''L2'']) 0)) epsilon
   \<and> fdiv (clr ex_result_a) (fadd (clr ex_result_a) (Fin 1)) = Inr (posterior ex_result_a)"
proof -
  have h1: "\<forall>l\<in>set [''L1'', ''L2'']. ex_row_a l \<noteq> None" by (simp add: ex_row_a_def)
  have h2: "length [''L1'', ''L2''] < 2 ^ 50" by simp
  from score_formula [OF h1 h2, of "query_alleles_by_locus ex_query" "Str ''A''"] ex_score_a
  have c: "clr ex_result_a = fadd (Fin (max (2 * of_int (consistent_loci ex_result_a)
           + of_int (mutated_loci ex_result_a)
           - total_penalty (query_alleles_by_locus ex_query) ex_row_a [''L1'', ''L2'']) 0)) epsilon
     \<and> fdiv (clr ex_result_a) (fadd (clr ex_result_a) (Fin 1)) = Inr (posterior ex_result_a)"
    by auto
  have h1': "list_all (\<lambda>l. ex_row_a l \<noteq> None) [''L1'', ''L2'']" by (simp add: ex_row_a_def)
  from h1' h2 ex_score_a c show ?thesis by blast
qed

subsection \<open>C10: the counts of a comparison\<close>

text \<open>
  C10. In every result of the scorer the three counts are not negative, and together
  with the number of Mismatch loci they add up to the number of loci evaluated.
\<close>

theorem locus_counts_partition:
  assumes "score_candidate qa loci candidate cid = Inr r"
  shows "0 \<le> consistent_loci r \<and> 0 \<le> mutated_loci r \<and> 0 \<le> inconclusive_loci r
         \<and> consistent_loci r + mutated_loci r + inconclusive_loci r
             + int (count_verdict Mismatch qa candidate loci) = int (length loci)"
proof -
  have "int (count_verdict Consistent qa candidate loci) + int (count_verdict Mutated qa candidate loci)
      + int (count_verdict Inconclusive qa candidate loci) + int (count_verdict Mismatch qa candidate loci)
      = int (length loci)"
    using count_verdict_total [of qa candidate loci] by (metis of_nat_add)
  then show ?thesis by (simp add: score_candidate_counts [OF assms])
qed

theorem locus_counts_partition_witness:
  "score_candidate (query_alleles_by_locus ex_query) [''L1'', ''L2''] ex_row_b (Str ''B'') = Inr ex_result_b
   \<and> consistent_loci ex_result_b = 0 \<and> mutated_loci ex_result_b = 0 \<and> inconclusive_loci ex_result_b = 1
   \<and> int (count_verdict Mismatch (query_alleles_by_locus ex_query) ex_row_b [''L1'', ''L2'']) = 1"
  using locus_counts_partition [OF ex_score_b] ex_score_b by (simp add: ex_result_b_def)

subsection \<open>C7: no result for the query's own row\<close>

text \<open>
  C7. No result of \<^verbatim>\<open>match_single\<close> has an identifier that is equal (\<^verbatim>\<open>==\<close>) to the
  query's identifier; when the query's identifier is a text, no result has that text
  as its identifier.
\<close>

theorem no_self_match:
  assumes "match_single q db = Inr rs"
  shows "\<exists>qid. q ''PersonID'' = Some qid
           \<and> (\<forall>r\<in>set rs. \<not> cell_eq (person_id r) qid \<and> (qid \<noteq> NA \<longrightarrow> person_id r \<noteq> qid))"
proof -
  from match_single_Inr [OF assms] obtain qid cands where
    q: "q ''PersonID'' = Some qid"
    and sc: "scan (query_alleles_by_locus q) (loci_of db) qid (rows db) [] = Inr cands"
    and rs: "rs = take 10 (sort_clr_reverse cands)" by blast
  have "\<not> cell_eq (person_id r) qid \<and> (qid \<noteq> NA \<longrightarrow> person_id r \<noteq> qid)" if "r \<in> set rs" for r
  proof -
    from that rs have "r \<in> set cands" using set_sort_clr_reverse [of cands] by (auto dest: in_set_takeD)
    from scan_member [OF sc this] obtain row cid where
      c: "\<not> cell_eq cid qid" "score_candidate (query_alleles_by_locus q) (loci_of db) row cid = Inr r"
      by blast
    from score_candidate_person_id [OF c(2)] c(1) have n: "\<not> cell_eq (person_id r) qid" by simp
    then show ?thesis by (cases "person_id r"; cases qid) auto
  qed
  with q show ?thesis by blast
qed

theorem no_self_match_witness:
  "match_single ex_query ex_db = Inr [ex_result_a, ex_result_b]
   \<and> ex_query ''PersonID'' = Some (Str ''Q1'') \<and> ex_query \<in> set (rows ex_db)
   \<and> person_id ex_result_a \<noteq> Str ''Q1'' \<and> person_id ex_result_b \<noteq> Str ''Q1''"
proof -
  from no_self_match [OF ex_match] obtain qid where
    "ex_query ''PersonID'' = Some qid"
    "\<forall>r\<in>set [ex_result_a, ex_result_b]. \<not> cell_eq (person_id r) qid \<and> (qid \<noteq> NA \<longrightarrow> person_id r \<noteq> qid)"
    by blast
  moreover have "ex_query ''PersonID'' = Some (Str ''Q1'')" by (simp add: ex_query_def)
  ultimately have "person_id ex_result_a \<noteq> Str ''Q1''" "person_id ex_result_b \<noteq> Str ''Q1''" by auto
  with ex_match show ?thesis by (simp add: ex_query_def ex_db_def)
qed

subsection \<open>C3: the ranked list\<close>

text \<open>
  C3. Whenever \<^verbatim>\<open>match_single\<close> returns, its result has at most 10 entries, no NaN
  score, and is in descending order of \<open>clr\<close>; it is the first 10 entries of a
  descending rearrangement of the scored rows (the rows whose identifier is not the
  query's) that keeps rows of equal \<open>clr\<close> in scan order; its length is the smaller of
  10 and the number of those rows, so with at most 10 of them all are returned. When
  every row of the database is the query's own, the result is the empty list and not
  an error.
\<close>

theorem match_single_ranked:
  "(match_single q db = Inr rs \<longrightarrow>
      length rs \<le> 10 \<and> descending rs \<and> no_nan rs \<and>
      (\<exists>qid cands.
         q ''PersonID'' = Some qid
         \<and> scan (query_alleles_by_locus q) (loci_of db) qid (rows db) [] = Inr cands
         \<and> length cands = length (non_self qid (rows db))
         \<and> length rs = min 10 (length cands)
         \<and> (\<exists>sorted. rs = take 10 sorted \<and> mset sorted = mset cands \<and> descending sorted
               \<and> (\<forall>k. filter (\<lambda>r. clr r = k) sorted = filter (\<lambda>r. clr r = k) cands))
         \<and> (length cands \<le> 10 \<longrightarrow> mset rs = mset cands)
         \<and> (\<forall>k. prefix (filter (\<lambda>r. clr r = k) rs) (filter (\<lambda>r. clr r = k) cands))))
   \<and> (q ''PersonID'' = Some qid' \<and> list_all has_id (rows db) \<and> non_self qid' (rows db) = []
        \<longrightarrow> match_single q db = Inr [])"
proof (intro conjI impI)
  assume "q ''PersonID'' = Some qid' \<and> list_all has_id (rows db) \<and> non_self qid' (rows db) = []"
  then show "match_single q db = Inr []"
    by (simp add: match_single_def scan_all_self sort_clr_reverse_def sort_clr_Nil)
next
  assume m: "match_single q db = Inr rs"
  from match_single_Inr [OF m] obtain qid cands where
    q: "q ''PersonID'' = Some qid"
    and sc: "scan (query_alleles_by_locus q) (loci_of db) qid (rows db) [] = Inr cands"
    and rs: "rs = take 10 (sort_clr_reverse cands)" by blast
  let ?sorted = "sort_clr_reverse cands"
  note nn = scan_no_nan [OF sc]
  have d: "descending ?sorted" by (rule descending_sort_clr_reverse [OF nn])
  have ms: "mset ?sorted = mset cands" by (rule mset_sort_clr_reverse)
  have st: "filter (\<lambda>r. clr r = k) ?sorted = filter (\<lambda>r. clr r = k) cands" for k
    by (rule filter_sort_clr_reverse [OF nn])
  show "length rs \<le> 10" by (simp add: rs)
  show "descending rs" unfolding rs by (rule descending_take [OF d])
  have "set rs \<subseteq> set cands" unfolding rs using set_sort_clr_reverse [of cands] set_take_subset by fastforce
  with nn show "no_nan rs" by (auto simp: no_nan_iff)
  have len: "length rs = min 10 (length cands)" by (simp add: rs length_sort_clr_reverse min.commute)
  have all: "mset rs = mset cands" if "length cands \<le> 10"
    using that ms by (simp add: rs length_sort_clr_reverse)
  have pre: "prefix (filter (\<lambda>r. clr r = k) rs) (filter (\<lambda>r. clr r = k) cands)" for k
    unfolding rs using prefix_filter_take [of "\<lambda>r. clr r = k" 10 ?sorted] by (simp only: st)
  from q sc scan_length [OF sc] len rs ms d st all pre
  show "\<exists>qid cands.
         q ''PersonID'' = Some qid
         \<and> scan (query_alleles_by_locus q) (loci_of db) qid (rows db) [] = Inr cands
         \<and> length cands = length (non_self qid (rows db))
         \<and> length rs = min 10 (length cands)
         \<and> (\<exists>sorted. rs = take 10 sorted \<and> mset sorted = mset cands \<and> descending sorted
               \<and> (\<forall>k. filter (\<lambda>r. clr r = k) sorted = filter (\<lambda>r. clr r = k) cands))
         \<and> (length cands \<le> 10 \<longrightarrow> mset rs = mset cands)
         \<and> (\<forall>k. prefix (filter (\<lambda>r. clr r = k) rs) (filter (\<lambda>r. clr r = k) cands))"
    by blast
qed

text \<open>
  The example of the specification returns both candidates, the better first; a
  database that holds the query's row only returns the empty list.
\<close>

theorem match_single_ranked_witness:
  "match_single ex_query ex_db = Inr [ex_result_a, ex_result_b]
   \<and> length [ex_result_a, ex_result_b] \<le> 10 \<and> descending [ex_result_a, ex_result_b]
   \<and> flt (clr ex_result_b) (clr ex_result_a)
   \<and> ex_query ''PersonID'' = Some (Str ''Q1'')
   \<and> list_all has_id (rows \<lparr>columns = columns ex_db, rows = [ex_query]\<rparr>)
   \<and> non_self (Str ''Q1'') (rows \<lparr>columns = columns ex_db, rows = [ex_query]\<rparr>) = []
   \<and> match_single ex_query \<lparr>columns = columns ex_db, rows = [ex_query]\<rparr> = Inr []"
proof -
  from match_single_ranked [of ex_query ex_db "[ex_result_a, ex_result_b]"] ex_match
  have a: "length [ex_result_a, ex_result_b] \<le> 10 \<and> descending [ex_result_a, ex_result_b]"
    by blast
  have b: "flt (clr ex_result_b) (clr ex_result_a)" by (simp add: ex_result_a_def ex_result_b_def)
  have c: "ex_query ''PersonID'' = Some (Str ''Q1'')"
    "list_all has_id (rows \<lparr>columns = columns ex_db, rows = [ex_query]\<rparr>)"
    "non_self (Str ''Q1'') (rows \<lparr>columns = columns ex_db, rows = [ex_query]\<rparr>) = []"
    by (simp_all add: ex_query_def has_id_def non_self_def)
  with match_single_ranked [of ex_query "\<lparr>columns = columns ex_db, rows = [ex_query]\<rparr>" _ "Str ''Q1''"]
  have "match_single ex_query \<lparr>columns = columns ex_db, rows = [ex_query]\<rparr> = Inr []" by blast
  with ex_match a b c show ?thesis by blast
qed

subsection \<open>C8: the loci that are compared\<close>

text \<open>
  C8. The loci of a comparison are the columns of the database but \<^verbatim>\<open>PersonID\<close>. A
  locus for which the query has no key gives the Inconclusive tuple whatever the
  candidate has there, and every such locus of the schema is in the count of
  Inconclusive loci. Every result of \<^verbatim>\<open>match_single\<close> is the scorer's result for a row
  of the database over exactly these loci. Two queries with the same identifier that
  agree on the columns of the database get the same answer, whatever other keys they
  have.
\<close>

theorem schema_loci_only:
  "(q l = None \<longrightarrow> locus_outcome (query_alleles_by_locus q) candidate l = (0, 0, 1, Fin 0))
   \<and> (score_candidate (query_alleles_by_locus q) loci candidate cid = Inr r \<longrightarrow>
        int (length (filter (\<lambda>l. q l = None) loci)) \<le> inconclusive_loci r)
   \<and> (match_single q db = Inr rs \<longrightarrow>
        (\<forall>x\<in>set rs. \<exists>row\<in>set (rows db). \<exists>c.
            score_candidate (query_alleles_by_locus q)
              (filter (\<lambda>col. col \<noteq> ''PersonID'') (columns db)) row c = Inr x))
   \<and> (q ''PersonID'' = q' ''PersonID'' \<and> (\<forall>k\<in>set (columns db). q k = q' k) \<longrightarrow>
        match_single q db = match_single q' db)"
proof (intro conjI impI)
  assume "q l = None"
  then show "locus_outcome (query_alleles_by_locus q) candidate l = (0, 0, 1, Fin 0)"
    by (rule absent_locus_outcome)
next
  assume s: "score_candidate (query_alleles_by_locus q) loci candidate cid = Inr r"
  have "\<forall>l\<in>set loci. q l = None \<longrightarrow> locus_verdict (query_alleles_by_locus q) candidate l = Inconclusive"
    by (simp add: locus_verdict_def absent_locus_outcome tuple_verdict_def)
  from length_filter_mono [OF this]
  have "length (filter (\<lambda>l. q l = None) loci) \<le> count_verdict Inconclusive (query_alleles_by_locus q) candidate loci"
    by (simp add: count_verdict_def)
  then show "int (length (filter (\<lambda>l. q l = None) loci)) \<le> inconclusive_loci r"
    by (simp add: score_candidate_counts(3) [OF s])
next
  assume m: "match_single q db = Inr rs"
  from match_single_Inr [OF m] obtain qid cands where
    sc: "scan (query_alleles_by_locus q) (loci_of db) qid (rows db) [] = Inr cands"
    and rs: "rs = take 10 (sort_clr_reverse cands)" by blast
  show "\<forall>x\<in>set rs. \<exists>row\<in>set (rows db). \<exists>c.
            score_candidate (query_alleles_by_locus q)
              (filter (\<lambda>col. col \<noteq> ''PersonID'') (columns db)) row c = Inr x"
  proof
    fix x
    assume "x \<in> set rs"
    with rs have "x \<in> set cands" using set_sort_clr_reverse [of cands] by (auto dest: in_set_takeD)
    from scan_member [OF sc this] show "\<exists>row\<in>set (rows db). \<exists>c.
            score_candidate (query_alleles_by_locus q)
              (filter (\<lambda>col. col \<noteq> ''PersonID'') (columns db)) row c = Inr x"
      by (auto simp: loci_of_def)
  qed
next
  assume a: "q ''PersonID'' = q' ''PersonID'' \<and> (\<forall>k\<in>set (columns db). q k = q' k)"
  then have "\<forall>l\<in>set (loci_of db). dict_get (query_alleles_by_locus q) l = dict_get (query_alleles_by_locus q') l"
    by (simp add: loci_of_def dict_get_def query_alleles_by_locus_def)
  with a show "match_single q db = match_single q' db" by (intro match_single_cong) simp_all
qed

text \<open>
  The query without the key \<open>L2\<close> has that locus counted as Inconclusive against the
  first candidate, and the query with one more key \<open>L9\<close> gets the answer of the example.
\<close>

theorem schema_loci_only_witness:
  "ex_query_short ''L2'' = None
   \<and> locus_outcome (query_alleles_by_locus ex_query_short) ex_row_a ''L2'' = (0, 0, 1, Fin 0)
   \<and> score_candidate (query_alleles_by_locus ex_query_short) [''L1'', ''L2''] ex_row_a (Str ''A'') = Inr ex_result_a
   \<and> int (length (filter (\<lambda>l. ex_query_short l = None) [''L1'', ''L2''])) \<le> inconclusive_loci ex_result_a
   \<and> (ex_query(''L9'' \<mapsto> Str ''7'')) ''PersonID'' = ex_query ''PersonID''
   \<and> list_all (\<lambda>k. (ex_query(''L9'' \<mapsto> Str ''7'')) k = ex_query k) (columns ex_db)
   \<and> match_single (ex_query(''L9'' \<mapsto> Str ''7'')) ex_db = Inr [ex_result_a, ex_result_b]"
proof -
  have n: "ex_query_short ''L2'' = None" by (simp add: ex_query_short_def)
  note t = schema_loci_only [of ex_query_short "''L2''" ex_row_a "[''L1'', ''L2'']" "Str ''A''" ex_result_a]
  from t n have a: "locus_outcome (query_alleles_by_locus ex_query_short) ex_row_a ''L2'' = (0, 0, 1, Fin 0)"
    by blast
  from t ex_score_short
  have b: "int (length (filter (\<lambda>l. ex_query_short l = None) [''L1'', ''L2''])) \<le> inconclusive_loci ex_result_a"
    by blast
  have c: "(ex_query(''L9'' \<mapsto> Str ''7'')) ''PersonID'' = ex_query ''PersonID''"
    "\<forall>k\<in>set (columns ex_db). (ex_query(''L9'' \<mapsto> Str ''7'')) k = ex_query k"
    by (simp_all add: ex_db_def)
  with schema_loci_only [of "ex_query(''L9'' \<mapsto> Str ''7'')" _ _ _ _ _ ex_db _ ex_query]
  have "match_single (ex_query(''L9'' \<mapsto> Str ''7'')) ex_db = match_single ex_query ex_db" by blast
  with ex_match have d: "match_single (ex_query(''L9'' \<mapsto> Str ''7'')) ex_db = Inr [ex_result_a, ex_result_b]"
    by simp
  from c(2) have c2: "list_all (\<lambda>k. (ex_query(''L9'' \<mapsto> Str ''7'')) k = ex_query k) (columns ex_db)"
    by (simp only: list_all_iff)
  from n a ex_score_short b c(1) c2 d show ?thesis by blast
qed

subsection \<open>C9: the range of the score and of the posterior\<close>

text \<open>
  C9. With fewer than \<open>2 ^ 50\<close> columns, \<^verbatim>\<open>match_single\<close> never fails by a division by
  zero, and in every result that it returns the score is a float above 0 and not below
  \<^verbatim>\<open>1e-6\<close>, and the posterior is a float above 0 and below 1.
\<close>

theorem result_scores_in_range:
  assumes "length (columns db) < 2 ^ 50"
  shows "match_single q db \<noteq> Inl ZeroDivisionError
         \<and> (match_single q db = Inr rs \<longrightarrow>
              (\<forall>r\<in>set rs. flt (Fin 0) (clr r) \<and> fle epsilon (clr r)
                           \<and> flt (Fin 0) (posterior r) \<and> flt (posterior r) (Fin 1)))"
proof (rule conjI)
  show "match_single q db \<noteq> Inl ZeroDivisionError"
    using match_single_Inl [OF assms, of q ZeroDivisionError] by auto
next
  show "match_single q db = Inr rs \<longrightarrow>
              (\<forall>r\<in>set rs. flt (Fin 0) (clr r) \<and> fle epsilon (clr r)
                           \<and> flt (Fin 0) (posterior r) \<and> flt (posterior r) (Fin 1))"
  proof (intro impI ballI)
  fix r
  assume m: "match_single q db = Inr rs" and r: "r \<in> set rs"
  from match_single_Inr [OF m] obtain qid cands where
    sc: "scan (query_alleles_by_locus q) (loci_of db) qid (rows db) [] = Inr cands"
    and rs: "rs = take 10 (sort_clr_reverse cands)" by blast
  from r rs have "r \<in> set cands" using set_sort_clr_reverse [of cands] by (auto dest: in_set_takeD)
  from scan_member [OF sc this] obtain row cid where
    s: "score_candidate (query_alleles_by_locus q) (loci_of db) row cid = Inr r" by blast
  from assms length_loci_of [of db] have n: "length (loci_of db) < 2 ^ 50" by simp
  from score_candidate_exact [OF score_candidate_present [OF s] n, of "query_alleles_by_locus q" cid] s
  obtain v p where "clr r = Fin v" "posterior r = Fin p" "eps_val \<le> v" "0 < p" "p < 1"
    by auto
  with eps_val_pos
  show "flt (Fin 0) (clr r) \<and> fle epsilon (clr r) \<and> flt (Fin 0) (posterior r) \<and> flt (posterior r) (Fin 1)"
    by (auto simp: fle_def epsilon_eq)
  qed
qed

theorem result_scores_in_range_witness:
  "length (columns ex_db) < 2 ^ 50 \<and> match_single ex_query ex_db = Inr [ex_result_a, ex_result_b]
   \<and> flt (Fin 0) (clr ex_result_b) \<and> fle epsilon (clr ex_result_b)
   \<and> flt (Fin 0) (posterior ex_result_b) \<and> flt (posterior ex_result_b) (Fin 1)
   \<and> flt (Fin 0) (clr ex_result_a) \<and> fle epsilon (clr ex_result_a)
   \<and> flt (Fin 0) (posterior ex_result_a) \<and> flt (posterior ex_result_a) (Fin 1)"
proof -
  have h: "length (columns ex_db) < 2 ^ 50" by (simp add: ex_db_def)
  from result_scores_in_range [OF h, of ex_query "[ex_result_a, ex_result_b]"] ex_match
  have "\<forall>r\<in>set [ex_result_a, ex_result_b]. flt (Fin 0) (clr r) \<and> fle epsilon (clr r)
                           \<and> flt (Fin 0) (posterior r) \<and> flt (posterior r) (Fin 1)"
    by blast
  with h ex_match show ?thesis by simp
qed

subsection \<open>C4: the allele parser\<close>

text \<open>
  C4, as the code has it. The parser returns absent for the missing-data marker, for a
  field that is empty after trimming and for the placeholder \<open>-\<close>; otherwise it splits
  on commas, trims the tokens, drops the empty tokens and those that \<^verbatim>\<open>float\<close>
  rejects, returns absent when no token survives, and otherwise returns the list of the
  values of the surviving tokens, in the order of the tokens and with every duplicate
  kept. The members of that list are the values of the surviving tokens.
\<close>

theorem parse_alleles_surviving_list:
  "parse_alleles NA = None
   \<and> parse_alleles (Str s) =
       (if strip s = [] \<or> strip s = ''-'' \<or> surviving s = [] then None
        else Some (map (\<lambda>t. the (py_float t)) (surviving s)))
   \<and> (parse_alleles (Str s) = Some xs \<longrightarrow>
         xs \<noteq> [] \<and> length xs = length (surviving s)
         \<and> set xs = {x. \<exists>t\<in>set (tokens s). py_float t = Some x})"
proof (intro conjI impI)
  show "parse_alleles NA = None" by simp
  show "parse_alleles (Str s) =
       (if strip s = [] \<or> strip s = ''-'' \<or> surviving s = [] then None
        else Some (map (\<lambda>t. the (py_float t)) (surviving s)))"
    by (rule parse_alleles_Str)
next
  assume a: "parse_alleles (Str s) = Some xs"
  then have "(if strip s = [] \<or> strip s = ''-'' \<or> surviving s = [] then None
        else Some (map (\<lambda>t. the (py_float t)) (surviving s))) = Some xs"
    by (simp only: parse_alleles_Str)
  then have xs: "xs = map (\<lambda>t. the (py_float t)) (surviving s)" and ne: "surviving s \<noteq> []"
    by (auto split: if_splits)
  from xs ne show "xs \<noteq> []" by simp
  from xs show "length xs = length (surviving s)" by simp
  from xs show "set xs = {x. \<exists>t\<in>set (tokens s). py_float t = Some x}"
    by (simp only: set_surviving_values)
qed

text \<open>
  The examples of the specification: \<open>9,,9.3\<close> gives the two values 9.0 and 9.3, the
  empty token dropped; the placeholder and the empty field give absent.
\<close>

theorem parse_alleles_surviving_list_witness:
  "tokens ''9,,9.3'' = [''9'', '''', ''9.3''] \<and> surviving ''9,,9.3'' = [''9'', ''9.3'']
   \<and> parse_alleles (Str ''9,,9.3'') = Some [Fin 9, Fin (2617717283409101 / 2 ^ 48)]
   \<and> length [Fin 9, Fin (2617717283409101 / 2 ^ 48)] = length (surviving ''9,,9.3'')
   \<and> parse_alleles (Str '' - '') = None \<and> parse_alleles (Str '''') = None"
proof -
  have t: "tokens ''9,,9.3'' = [''9'', '''', ''9.3'']"
    by (simp add: tokens_def strip_def is_space_def)
  have f: "py_float ''9'' = Some (Fin 9)" "py_float ''9.3'' = Some (Fin (2617717283409101 / 2 ^ 48))"
    "py_float [] = None"
    by (simp_all add: parse_defs float_eval)
  have s: "surviving ''9,,9.3'' = [''9'', ''9.3'']" by (simp add: surviving_def t f)
  have n: "strip ''9,,9.3'' \<noteq> []" "strip ''9,,9.3'' \<noteq> ''-''" by (simp_all add: strip_def is_space_def)
  note inst = parse_alleles_surviving_list [of "''9,,9.3''" "[Fin 9, Fin (2617717283409101 / 2 ^ 48)]"]
  from inst have p: "parse_alleles (Str ''9,,9.3'') = Some [Fin 9, Fin (2617717283409101 / 2 ^ 48)]"
    by (simp add: s f n)
  with inst have l: "length [Fin 9, Fin (2617717283409101 / 2 ^ 48)] = length (surviving ''9,,9.3'')"
    by blast
  have e: "parse_alleles (Str '' - '') = None" "parse_alleles (Str '''') = None"
    using parse_alleles_surviving_list [of "'' - ''"] parse_alleles_surviving_list [of "''''"]
    by (simp_all add: strip_def is_space_def)
  from t s p l e show ?thesis by blast
qed

text \<open>
  C4 as stated, that the parser returns a set with duplicates collapsed, fails on
  the field \<open>9,9\<close>: the parser returns a list of two members for the one value.
\<close>

theorem parse_alleles_duplicates_counterexample:
  "parse_alleles (Str ''9,9'') = Some [Fin 9, Fin 9]
   \<and> length [Fin 9, Fin 9 :: pyfloat] = 2 \<and> card (set [Fin 9, Fin 9 :: pyfloat]) = 1
   \<and> \<not> distinct [Fin 9, Fin 9 :: pyfloat]"
  by (simp add: parse_defs float_eval)

subsection \<open>C5: structurally invalid input\<close>

text \<open>
  C5, as the code has it. For a database whose column names are distinct, in which
  every row has a cell for every column, and which has fewer than \<open>2 ^ 50\<close> columns:
  when the query has no \<^verbatim>\<open>PersonID\<close> key or some row has no \<^verbatim>\<open>PersonID\<close> cell,
  \<^verbatim>\<open>match_single\<close> raises KeyError for that key and returns nothing, not even for the
  rows that are in order; in every other case it returns a list, whatever text or
  missing marker each cell holds (a missing marker as identifier included). An error of
  \<^verbatim>\<open>match_single\<close> ends the batch of \<^verbatim>\<open>find_matches\<close> with that error, the queries
  answered before it lost with it.
\<close>

theorem match_single_errors:
  assumes "frame_ok db" and "distinct (columns db)" and "length (columns db) < 2 ^ 50"
  shows "(q ''PersonID'' = None \<or> \<not> list_all has_id (rows db) \<longrightarrow>
            match_single q db = Inl (KeyError ''PersonID''))
         \<and> (q ''PersonID'' \<noteq> None \<and> list_all has_id (rows db) \<longrightarrow> (\<exists>rs. match_single q db = Inr rs))
         \<and> (rows queries = pre @ q # rest
              \<and> list_all (\<lambda>p. \<exists>rs. match_single p db = Inr rs) pre
              \<and> match_single q db = Inl e \<longrightarrow> find_matches db queries = Inl e)"
proof (intro conjI impI)
  assume "q ''PersonID'' = None \<or> \<not> list_all has_id (rows db)"
  then show "match_single q db = Inl (KeyError ''PersonID'')"
    by (rule match_single_missing_id [OF assms(1,3)])
next
  assume "q ''PersonID'' \<noteq> None \<and> list_all has_id (rows db)"
  then obtain qid where "q ''PersonID'' = Some qid" "list_all has_id (rows db)" by auto
  then show "\<exists>rs. match_single q db = Inr rs" by (rule match_single_total [OF assms(1,3)])
next
  assume "rows queries = pre @ q # rest
              \<and> list_all (\<lambda>p. \<exists>rs. match_single p db = Inr rs) pre
              \<and> match_single q db = Inl e"
  then show "find_matches db queries = Inl e"
    by (simp add: find_matches_def run_queries_abort)
qed

text \<open>
  On the database of the example the query of the example is answered, the query
  without identifier raises KeyError, and the batch of the two ends with that error.
\<close>

theorem match_single_errors_witness:
  "frame_ok ex_db \<and> distinct (columns ex_db) \<and> length (columns ex_db) < 2 ^ 50
   \<and> ex_query ''PersonID'' \<noteq> None \<and> list_all has_id (rows ex_db)
   \<and> match_single ex_query ex_db = Inr [ex_result_a, ex_result_b]
   \<and> ex_query_no_id ''PersonID'' = None
   \<and> match_single ex_query_no_id ex_db = Inl (KeyError ''PersonID'')
   \<and> find_matches ex_db \<lparr>columns = columns ex_db, rows = [ex_query, ex_query_no_id]\<rparr>
       = Inl (KeyError ''PersonID'')"
proof -
  have h: "length (columns ex_db) < 2 ^ 50" by (simp add: ex_db_def)
  have d: "distinct (columns ex_db)" by (simp add: ex_db_def)
  note inst = match_single_errors [OF ex_frame_ok d h]
  have a: "ex_query ''PersonID'' \<noteq> None" "list_all has_id (rows ex_db)"
    "ex_query_no_id ''PersonID'' = None"
    by (simp_all add: example_defs has_id_def)
  from inst [of ex_query_no_id] a(3)
  have b: "match_single ex_query_no_id ex_db = Inl (KeyError ''PersonID'')" by blast
  have "rows \<lparr>columns = columns ex_db, rows = [ex_query, ex_query_no_id]\<rparr> = [ex_query] @ ex_query_no_id # []"
    "list_all (\<lambda>p. \<exists>rs. match_single p ex_db = Inr rs) [ex_query]"
    by (simp_all add: ex_match)
  with inst [of ex_query_no_id "\<lparr>columns = columns ex_db, rows = [ex_query, ex_query_no_id]\<rparr>"
      "[ex_query]" "[]" "KeyError ''PersonID''"] b
  have c: "find_matches ex_db \<lparr>columns = columns ex_db, rows = [ex_query, ex_query_no_id]\<rparr>
       = Inl (KeyError ''PersonID'')" by blast
  from ex_frame_ok d h a ex_match b c show ?thesis by blast
qed

text \<open>
  C5 as stated fails: the error for a query without identifier, and for a
  database without the identifier column, is Python's KeyError (the code has no
  SchemaError), no candidate is answered, and \<^verbatim>\<open>find_matches\<close> ends with the error at
  the first query.
\<close>

theorem schema_error_counterexample:
  "match_single ex_query_no_id ex_db = Inl (KeyError ''PersonID'')
   \<and> match_single ex_query ex_db_no_id = Inl (KeyError ''PersonID'')
   \<and> find_matches ex_db_no_id \<lparr>columns = columns ex_db, rows = [ex_query, ex_query]\<rparr>
       = Inl (KeyError ''PersonID'')"
  by (simp add: match_single_def find_matches_def example_defs)

subsection \<open>C6: one more locus\<close>

text \<open>
  C6, as the code has it. For a row that has a cell for each of fewer than \<open>2 ^ 50\<close>
  loci, the score is the float sum of \<^verbatim>\<open>1e-6\<close> and the clamped sum \<open>b\<close>, the larger of 0
  and \<open>2 * consistent + mutated - total_penalty\<close>. One more Consistent locus raises the
  clamped sum by 2, and one more Mutated locus by 0.5, when the sum under the clamp is
  not negative; when it is negative the clamped sum rises by less or stays at 0. One
  more Mismatch locus lowers the clamped sum by 1, not below 0, and one more
  Inconclusive locus leaves it as it is.
\<close>

theorem clamped_sum_one_more_locus:
  assumes "\<forall>l\<in>set (loci @ [l']). candidate l \<noteq> None" and "length (loci @ [l']) < 2 ^ 50"
  shows "\<exists>b b' r r'.
           candidate_base qa loci candidate = Inr (Fin b)
         \<and> candidate_base qa (loci @ [l']) candidate = Inr (Fin b')
         \<and> score_candidate qa loci candidate cid = Inr r \<and> clr r = fadd (Fin b) epsilon
         \<and> score_candidate qa (loci @ [l']) candidate cid = Inr r' \<and> clr r' = fadd (Fin b') epsilon
         \<and> b = max (raw_sum qa candidate loci) 0
         \<and> (locus_verdict qa candidate l' = Consistent \<longrightarrow>
               b \<le> b' \<and> b' \<le> b + 2 \<and> (0 \<le> raw_sum qa candidate loci \<longrightarrow> b' = b + 2))
         \<and> (locus_verdict qa candidate l' = Mutated \<longrightarrow>
               b \<le> b' \<and> b' \<le> b + 1 / 2 \<and> (0 \<le> raw_sum qa candidate loci \<longrightarrow> b' = b + 1 / 2))
         \<and> (locus_verdict qa candidate l' = Mismatch \<longrightarrow> b' = max (b - 1) 0)
         \<and> (locus_verdict qa candidate l' = Inconclusive \<longrightarrow> b' = b)"
proof -
  from assms have p: "\<forall>l\<in>set loci. candidate l \<noteq> None" and n: "length loci < 2 ^ 50" by simp_all
  let ?x = "raw_sum qa candidate loci"
  let ?y = "raw_sum qa candidate (loci @ [l'])"
  have b: "candidate_base qa loci candidate = Inr (Fin (max ?x 0))"
    by (rule candidate_base_exact [OF p n])
  have b': "candidate_base qa (loci @ [l']) candidate = Inr (Fin (max ?y 0))"
    by (rule candidate_base_exact [OF assms])
  from score_candidate_exact [OF p n, of qa cid] obtain r where
    r: "score_candidate qa loci candidate cid = Inr r" "clr r = fadd (Fin (max ?x 0)) epsilon"
    by force
  from score_candidate_exact [OF assms, of qa cid] obtain r' where
    r': "score_candidate qa (loci @ [l']) candidate cid = Inr r'" "clr r' = fadd (Fin (max ?y 0)) epsilon"
    by force
  have c: "locus_verdict qa candidate l' = Consistent \<longrightarrow>
      max ?x 0 \<le> max ?y 0 \<and> max ?y 0 \<le> max ?x 0 + 2 \<and> (0 \<le> ?x \<longrightarrow> max ?y 0 = max ?x 0 + 2)"
    by (auto simp: raw_sum_snoc [of qa candidate loci l'])
  have m: "locus_verdict qa candidate l' = Mutated \<longrightarrow>
      max ?x 0 \<le> max ?y 0 \<and> max ?y 0 \<le> max ?x 0 + 1 / 2 \<and> (0 \<le> ?x \<longrightarrow> max ?y 0 = max ?x 0 + 1 / 2)"
    by (auto simp: raw_sum_snoc [of qa candidate loci l'])
  have x: "locus_verdict qa candidate l' = Mismatch \<longrightarrow> max ?y 0 = max (max ?x 0 - 1) 0"
    by (auto simp: raw_sum_snoc [of qa candidate loci l'])
  have i: "locus_verdict qa candidate l' = Inconclusive \<longrightarrow> max ?y 0 = max ?x 0"
    by (auto simp: raw_sum_snoc [of qa candidate loci l'])
  from b b' r r' c m x i show ?thesis by blast
qed

text \<open>
  In the example of the specification, the locus \<open>L1\<close> added to the Inconclusive locus
  \<open>L2\<close> of the first candidate raises the clamped sum from 0 to 2.
\<close>

theorem clamped_sum_one_more_locus_witness:
  "list_all (\<lambda>l. ex_row_a l \<noteq> None) ([''L2''] @ [''L1'']) \<and> length ([''L2''] @ [''L1'']) < 2 ^ 50
   \<and> locus_verdict (query_alleles_by_locus ex_query) ex_row_a ''L1'' = Consistent
   \<and> 0 \<le> raw_sum (query_alleles_by_locus ex_query) ex_row_a [''L2'']
   \<and> candidate_base (query_alleles_by_locus ex_query) [''L2''] ex_row_a = Inr (Fin 0)
   \<and> candidate_base (query_alleles_by_locus ex_query) ([''L2''] @ [''L1'']) ex_row_a = Inr (Fin 2)"
proof -
  have h1: "\<forall>l\<in>set ([''L2''] @ [''L1'']). ex_row_a l \<noteq> None" by (simp add: ex_row_a_def)
  have h2: "length ([''L2''] @ [''L1'']) < 2 ^ 50" by simp
  have v: "locus_verdict (query_alleles_by_locus ex_query) ex_row_a ''L1'' = Consistent"
    by (rule ex_a_verdicts)
  have z: "raw_sum (query_alleles_by_locus ex_query) ex_row_a [''L2''] = 0"
    by (simp add: raw_sum_def total_penalty_def count_verdict_def ex_a_verdicts)
  from clamped_sum_one_more_locus [OF h1 h2, of "query_alleles_by_locus ex_query" "Str ''A''"]
  obtain b b' where
    "candidate_base (query_alleles_by_locus ex_query) [''L2''] ex_row_a = Inr (Fin b)"
    "candidate_base (query_alleles_by_locus ex_query) ([''L2''] @ [''L1'']) ex_row_a = Inr (Fin b')"
    "b = max (raw_sum (query_alleles_by_locus ex_query) ex_row_a [''L2'']) 0"
    "locus_verdict (query_alleles_by_locus ex_query) ex_row_a ''L1'' = Consistent \<longrightarrow>
       b \<le> b' \<and> b' \<le> b + 2 \<and> (0 \<le> raw_sum (query_alleles_by_locus ex_query) ex_row_a [''L2''] \<longrightarrow> b' = b + 2)"
    by blast
  with v z have
    "candidate_base (query_alleles_by_locus ex_query) [''L2''] ex_row_a = Inr (Fin 0)"
    "candidate_base (query_alleles_by_locus ex_query) ([''L2''] @ [''L1'']) ex_row_a = Inr (Fin 2)"
    by simp_all
  moreover have "list_all (\<lambda>l. ex_row_a l \<noteq> None) ([''L2''] @ [''L1''])" by (simp add: ex_row_a_def)
  moreover have "0 \<le> raw_sum (query_alleles_by_locus ex_query) ex_row_a [''L2'']" by (simp add: z)
  ultimately show ?thesis using h2 v by blast
qed

text \<open>
  C6 as stated fails where the sum under the clamp is negative: with three
  Mismatch loci the score is \<^verbatim>\<open>1e-6\<close>, and it is still \<^verbatim>\<open>1e-6\<close> with a Consistent
  fourth locus (not greater by 2) and with a Mutated fourth locus (not greater by 0.5).
\<close>

theorem score_monotonicity_counterexample:
  "locus_verdict (query_alleles_by_locus ex_query_four) ex_row_four ''L4'' = Consistent
   \<and> locus_verdict (query_alleles_by_locus ex_query_four) ex_row_four ''L5'' = Mutated
   \<and> score_candidate (query_alleles_by_locus ex_query_four) [''L1'', ''L2'', ''L3''] ex_row_four (Str ''A'')
       = Inr \<lparr>person_id = Str ''A'', clr = Fin (4722366482869645 / 2 ^ 72),
              posterior = Fin (4722361760507885 / 2 ^ 72),
              consistent_loci = 0, mutated_loci = 0, inconclusive_loci = 0\<rparr>
   \<and> score_candidate (query_alleles_by_locus ex_query_four) [''L1'', ''L2'', ''L3'', ''L4''] ex_row_four (Str ''A'')
       = Inr \<lparr>person_id = Str ''A'', clr = Fin (4722366482869645 / 2 ^ 72),
              posterior = Fin (4722361760507885 / 2 ^ 72),
              consistent_loci = 1, mutated_loci = 0, inconclusive_loci = 0\<rparr>
   \<and> score_candidate (query_alleles_by_locus ex_query_four) [''L1'', ''L2'', ''L3'', ''L5''] ex_row_four (Str ''A'')
       = Inr \<lparr>person_id = Str ''A'', clr = Fin (4722366482869645 / 2 ^ 72),
              posterior = Fin (4722361760507885 / 2 ^ 72),
              consistent_loci = 0, mutated_loci = 1, inconclusive_loci = 0\<rparr>"
proof (intro conjI)
  show "locus_verdict (query_alleles_by_locus ex_query_four) ex_row_four ''L4'' = Consistent"
    by (rule ex_four_verdicts)
  show "locus_verdict (query_alleles_by_locus ex_query_four) ex_row_four ''L5'' = Mutated"
    by (rule ex_four_verdicts)
  show "score_candidate (query_alleles_by_locus ex_query_four) [''L1'', ''L2'', ''L3''] ex_row_four (Str ''A'')
       = Inr \<lparr>person_id = Str ''A'', clr = Fin (4722366482869645 / 2 ^ 72),
              posterior = Fin (4722361760507885 / 2 ^ 72),
              consistent_loci = 0, mutated_loci = 0, inconclusive_loci = 0\<rparr>"
    by (simp add: example_defs score_defs parse_defs float_eval round64_half_numeral
        round64_neg_half_numeral round64_half)
  show "score_candidate (query_alleles_by_locus ex_query_four) [''L1'', ''L2'', ''L3'', ''L4''] ex_row_four (Str ''A'')
       = Inr \<lparr>person_id = Str ''A'', clr = Fin (4722366482869645 / 2 ^ 72),
              posterior = Fin (4722361760507885 / 2 ^ 72),
              consistent_loci = 1, mutated_loci = 0, inconclusive_loci = 0\<rparr>"
    by (simp add: example_defs score_defs parse_defs float_eval round64_half_numeral
        round64_neg_half_numeral round64_half)
  show "score_candidate (query_alleles_by_locus ex_query_four) [''L1'', ''L2'', ''L3'', ''L5''] ex_row_four (Str ''A'')
       = Inr \<lparr>person_id = Str ''A'', clr = Fin (4722366482869645 / 2 ^ 72),
              posterior = Fin (4722361760507885 / 2 ^ 72),
              consistent_loci = 0, mutated_loci = 1, inconclusive_loci = 0\<rparr>"
    by (simp add: example_defs score_defs parse_defs float_eval round64_half_numeral
        round64_neg_half_numeral round64_half)
qed

end
